theory Spec2Isabelle
  imports Complex_Main "HOL-Library.AList"
begin

unbundle bit_operations_syntax

section \<open>Photometric core (physics.ts)\<close>

text \<open>
  JavaScript numbers are modelled as real numbers: every arithmetic operation is
  exact.  Where a property speaks of overflow, the range of a double is written out
  (\<open>MAX_VALUE\<close> below).  Reading a property of \<^verbatim>\<open>undefined\<close> (an empty array's
  element \<^verbatim>\<open>0\<close>) throws a \<^verbatim>\<open>TypeError\<close>; that is the one exception the modelled
  functions can raise, and a function that can raise returns \<open>error + 'a\<close>.
\<close>

datatype error = TypeError

record BeamPoint =
  angle :: real
  intensity :: real

definition ALPHA :: real where
  "ALPHA = 0.00015"

definition SCOTOPIC_DATA :: "(real \<times> real) list" where
  "SCOTOPIC_DATA =
    [(380, 0.000589), (400, 0.00929), (420, 0.0966), (440, 0.3281),
     (460, 0.647), (480, 0.909), (500, 0.982), (507, 1.000),
     (520, 0.935), (540, 0.650), (560, 0.3288), (580, 0.1212),
     (600, 0.03315), (620, 0.00737), (640, 0.001497), (660, 0.0003129),
     (680, 0.0000715), (700, 0.0000178)]"

definition PHOTOPIC_DATA :: "(real \<times> real) list" where
  "PHOTOPIC_DATA =
    [(380, 0.000039), (400, 0.000396), (420, 0.004000), (440, 0.023000),
     (460, 0.060000), (480, 0.139020), (500, 0.323000), (520, 0.710000),
     (540, 0.954000), (555, 1.000000), (560, 0.995000), (580, 0.870000),
     (600, 0.631000), (620, 0.381000), (640, 0.175000), (660, 0.061000),
     (680, 0.017000), (700, 0.004102)]"

definition lerp :: "real \<Rightarrow> real \<Rightarrow> real \<Rightarrow> real \<Rightarrow> real \<Rightarrow> real" where
  "lerp x x0 x1 y0 y1 =
     (if \<bar>x1 - x0\<bar> < 1 / 10 ^ 9 then y0
      else y0 + (x - x0) * (y1 - y0) / (x1 - x0))"

text \<open>
  The \<^verbatim>\<open>for\<close> loop of \<^verbatim>\<open>getLookupValue\<close> over the consecutive pairs
  \<^verbatim>\<open>data[i], data[i + 1]\<close>: the first pair that brackets the value is interpolated,
  and the loop falling through returns 0.
\<close>

fun lookupLoop :: "(real \<times> real) list \<Rightarrow> real \<Rightarrow> real" where
  "lookupLoop (p0 # p1 # ps) val =
     (if val \<ge> fst p0 \<and> val \<le> fst p1
      then lerp val (fst p0) (fst p1) (snd p0) (snd p1)
      else lookupLoop (p1 # ps) val)"
| "lookupLoop ps val = 0"

definition getLookupValue :: "(real \<times> real) list \<Rightarrow> real \<Rightarrow> error + real" where
  "getLookupValue data val =
     (case data of
        [] \<Rightarrow> Inl TypeError
      | p # ps \<Rightarrow>
          if val \<le> fst p then Inr (snd p)
          else if val \<ge> fst (last data) then Inr (snd (last data))
          else Inr (lookupLoop data val))"

text \<open>The interpolation loop of \<^verbatim>\<open>getBeamIntensityDynamic\<close>.\<close>

fun beamLoop :: "BeamPoint list \<Rightarrow> real \<Rightarrow> real" where
  "beamLoop (p0 # p1 # ps) absAngle =
     (if absAngle \<ge> angle p0 \<and> absAngle \<le> angle p1
      then lerp absAngle (angle p0) (angle p1) (intensity p0) (intensity p1)
      else beamLoop (p1 # ps) absAngle)"
| "beamLoop ps absAngle = 0"

definition getBeamIntensityDynamic :: "BeamPoint list \<Rightarrow> real \<Rightarrow> error + real" where
  "getBeamIntensityDynamic beamPattern angleDeg =
     (let absAngle = \<bar>angleDeg\<bar> in
      case beamPattern of
        [] \<Rightarrow> Inl TypeError
      | p # ps \<Rightarrow>
          if absAngle \<le> angle p then Inr (intensity p)
          else if absAngle > angle (last beamPattern) then Inr 0
          else Inr (beamLoop beamPattern absAngle))"

definition getSpectralCorrectionFactor :: "real \<Rightarrow> error + real" where
  "getSpectralCorrectionFactor wavelength =
     (if wavelength \<ge> 700 then Inr 1
      else
        case getLookupValue SCOTOPIC_DATA wavelength of
          Inl e \<Rightarrow> Inl e
        | Inr v_scotopic \<Rightarrow>
            (case getLookupValue PHOTOPIC_DATA wavelength of
               Inl e \<Rightarrow> Inl e
             | Inr v_photopic \<Rightarrow>
                 let v_photopic_safe = max v_photopic (1 / 10 ^ 6);
                     correction = 2.489 * (v_scotopic / v_photopic_safe)
                 in Inr (max 1 correction)))"

text \<open>
  \<^verbatim>\<open>calculateIlluminance\<close>, step by step as the source has it; the names of the
  intermediate values are the source's.
\<close>

definition d_safe :: "real \<Rightarrow> real \<Rightarrow> real \<Rightarrow> real" where
  "d_safe x y z = max 0.05 (sqrt (x * x + y * y + z * z))"

definition cosTheta :: "real \<Rightarrow> real \<Rightarrow> real \<Rightarrow> real \<Rightarrow> real \<Rightarrow> real" where
  "cosTheta x y z angleH angleV =
     (let Dx = sin angleH * cos angleV;
          Dy = cos angleH * cos angleV;
          Dz = sin angleV;
          Px = x / d_safe x y z;
          Py = y / d_safe x y z;
          Pz = z / d_safe x y z
      in Dx * Px + Dy * Py + Dz * Pz)"

definition calculateIlluminance ::
  "real \<Rightarrow> real \<Rightarrow> real \<Rightarrow> real \<Rightarrow> real \<Rightarrow> real \<Rightarrow> real \<Rightarrow> BeamPoint list \<Rightarrow> error + real" where
  "calculateIlluminance x y z angleH angleV peakCandela spectralFactor beamPattern =
     (if cosTheta x y z angleH angleV \<le> 0.001 then Inr 0
      else
        let thetaRad = arccos (min 1 (cosTheta x y z angleH angleV));
            thetaDeg = thetaRad * (180 / pi)
        in case getBeamIntensityDynamic beamPattern thetaDeg of
             Inl e \<Rightarrow> Inl e
           | Inr relativeIntensity \<Rightarrow>
               if relativeIntensity \<le> 0 then Inr 0
               else
                 let I_effective = peakCandela * spectralFactor * relativeIntensity;
                     T = exp (- ALPHA * d_safe x y z)
                 in Inr ((I_effective * T) / (d_safe x y z * d_safe x y z)))"

definition DEFAULT_BEAM_PATTERN :: "BeamPoint list" where
  "DEFAULT_BEAM_PATTERN =
     [\<lparr>angle = 0, intensity = 1.0\<rparr>, \<lparr>angle = 10, intensity = 0.9\<rparr>,
      \<lparr>angle = 20, intensity = 0.45\<rparr>, \<lparr>angle = 30, intensity = 0.0\<rparr>]"

subsection \<open>The range of a JavaScript number\<close>

text \<open>
  \<^verbatim>\<open>Number.MAX_VALUE\<close>, the largest finite double, \<^verbatim>\<open>(2 - 2^-52) * 2^1023\<close>.  An
  operation whose exact result lies beyond it overflows to \<^verbatim>\<open>Infinity\<close>.
\<close>

definition MAX_VALUE :: real where
  "MAX_VALUE = 2 ^ 1024 - 2 ^ 971"

definition finiteNumber :: "real \<Rightarrow> bool" where
  "finiteNumber r = (\<bar>r\<bar> \<le> MAX_VALUE)"

subsection \<open>Specification-level notions for the photometric core\<close>

text \<open>
  What the specification calls a clamped piecewise-linear lookup, as a relation between
  the table, the argument and the result: at or below the first key the result is the
  first value, at or above the last key it is the last value, and on every segment that
  brackets the argument it is the linear interpolant of the segment's two entries.
\<close>

definition clampedPiecewiseLinear :: "(real \<times> real) list \<Rightarrow> real \<Rightarrow> real \<Rightarrow> bool" where
  "clampedPiecewiseLinear tbl w r \<longleftrightarrow>
     (w \<le> fst (hd tbl) \<longrightarrow> r = snd (hd tbl)) \<and>
     (w \<ge> fst (last tbl) \<longrightarrow> r = snd (last tbl)) \<and>
     (\<forall>i. i + 1 < length tbl \<and> fst (tbl ! i) \<le> w \<and> w \<le> fst (tbl ! (i + 1)) \<longrightarrow>
        r = snd (tbl ! i) +
            (w - fst (tbl ! i)) * (snd (tbl ! (i + 1)) - snd (tbl ! i)) /
              (fst (tbl ! (i + 1)) - fst (tbl ! i)))"

text \<open>A table whose keys ascend, each by at least the tolerance of \<^const>\<open>lerp\<close>.\<close>

definition ascending :: "(real \<times> real) list \<Rightarrow> bool" where
  "ascending tbl = successively (\<lambda>p q. fst p + 1 / 10 ^ 9 \<le> fst q) tbl"




section \<open>Geometry optimizer (App.tsx)\<close>

text \<open>
  The state the optimizer reads.  \<^verbatim>\<open>ledCount\<close> and \<^verbatim>\<open>rowCount\<close> are set by
  integer sliders and are natural numbers here; the view limits \<^verbatim>\<open>gridLimits\<close> play no
  part in the optimizer and are left out.
\<close>

record SimulationParams =
  ledCount :: nat
  spreadAngle :: real
  rowCount :: nat
  verticalSpreadAngle :: real
  peakCandela :: real
  wavelength :: real
  logThreshold :: real
  isFlashing :: bool
  beamPattern :: "BeamPoint list"

text \<open>
  \<^verbatim>\<open>Point3D\<close> with its fields \<^verbatim>\<open>x\<close>, \<^verbatim>\<open>y\<close>, \<^verbatim>\<open>z\<close>, and an entry
  \<^verbatim>\<open>{h, v}\<close> of the LED configuration; the field names carry a prefix so that the
  letters stay free for variables.
\<close>

record Point3D =
  x3 :: real
  y3 :: real
  z3 :: real

record LedConfig =
  cfg_h :: real
  cfg_v :: real

definition isInfrared :: "SimulationParams \<Rightarrow> bool" where
  "isInfrared params = (wavelength params \<ge> 800)"

definition spectralCorrection :: "SimulationParams \<Rightarrow> error + real" where
  "spectralCorrection params = getSpectralCorrectionFactor (wavelength params)"

definition effectiveThreshold :: "SimulationParams \<Rightarrow> real" where
  "effectiveThreshold params =
     (let base = 10 powr (logThreshold params)
      in if isFlashing params then base / 8.0 else base)"

definition sourceIntensity :: "SimulationParams \<Rightarrow> real" where
  "sourceIntensity params =
     (if isInfrared params then peakCandela params / 1000 else peakCandela params)"

text \<open>
  \<^verbatim>\<open>generateLedConfig\<close>: the horizontal and the vertical angles, and their
  Cartesian product in the order of the two nested loops.  The source computes the two
  lists of angles by the same code, written twice; it is \<open>spreadAngles\<close> here.
\<close>

definition spreadAngles :: "nat \<Rightarrow> real \<Rightarrow> real list" where
  "spreadAngles count spread =
     (if count = 1 then [0]
      else
        let half = (spread * pi) / 180;
            step = (half * 2) / (real count - 1)
        in map (\<lambda>i. - half + real i * step) [0..<count])"

definition generateLedConfig :: "nat \<Rightarrow> real \<Rightarrow> nat \<Rightarrow> real \<Rightarrow> LedConfig list" where
  "generateLedConfig ledCount' spreadAngle' rowCount' verticalSpreadAngle' =
     (let hAngles = spreadAngles ledCount' spreadAngle';
          vAngles = spreadAngles rowCount' verticalSpreadAngle'
      in concat (map (\<lambda>h. map (\<lambda>v. \<lparr>cfg_h = h, cfg_v = v\<rparr>) vAngles) hAngles))"

text \<open>
  The sample lattice of \<^verbatim>\<open>handleOptimize\<close>: \<^verbatim>\<open>i\<close> and \<^verbatim>\<open>k\<close> run from 0 to
  \<^verbatim>\<open>stepX = stepZ = 4\<close>, and \<^verbatim>\<open>j\<close> runs from 1 to \<^verbatim>\<open>stepY = 8\<close>.
\<close>

definition stepX :: nat where "stepX = 4"
definition stepZ :: nat where "stepZ = 4"
definition stepY :: nat where "stepY = 8"

definition samples :: "real \<Rightarrow> real \<Rightarrow> real \<Rightarrow> Point3D list" where
  "samples targetW targetH targetR =
     concat (map (\<lambda>i.
       let x = (real i / real stepX) * (targetW / 2) in
       concat (map (\<lambda>k.
         let z = (real k / real stepZ) * (targetH / 2) in
         map (\<lambda>j.
           let y = (real j / real stepY) * targetR in
           \<lparr>x3 = x, y3 = y, z3 = z\<rparr>) [1..<stepY + 1]) [0..<stepZ + 1])) [0..<stepX + 1])"

text \<open>
  The inner loop \<^verbatim>\<open>for (const c of cfg) total += calculateIlluminance(...)\<close>; an
  exception of \<^verbatim>\<open>calculateIlluminance\<close> ends it.  The accumulator \<^verbatim>\<open>total\<close>
  is \<open>tot\<close> here.
\<close>

fun totalIlluminance ::
  "LedConfig list \<Rightarrow> Point3D \<Rightarrow> real \<Rightarrow> real \<Rightarrow> BeamPoint list \<Rightarrow> real \<Rightarrow> error + real" where
  "totalIlluminance [] p I s bp tot = Inr tot"
| "totalIlluminance (c # cfg) p I s bp tot =
     (case calculateIlluminance (x3 p) (y3 p) (z3 p) (cfg_h c) (cfg_v c) I s bp of
        Inl e \<Rightarrow> Inl e
      | Inr E \<Rightarrow> totalIlluminance cfg p I s bp (tot + E))"

text \<open>The loop over the samples that counts the hits of one candidate.\<close>

fun countHits ::
  "Point3D list \<Rightarrow> LedConfig list \<Rightarrow> real \<Rightarrow> real \<Rightarrow> BeamPoint list \<Rightarrow> real \<Rightarrow> nat \<Rightarrow> error + nat" where
  "countHits [] cfg I s bp threshold hits = Inr hits"
| "countHits (p # ps) cfg I s bp threshold hits =
     (case totalIlluminance cfg p I s bp 0 of
        Inl e \<Rightarrow> Inl e
      | Inr tot \<Rightarrow>
          countHits ps cfg I s bp threshold (if tot \<ge> threshold then hits + 1 else hits))"

text \<open>
  The coverage of the candidate \<open>(h, v)\<close>, from the values \<^verbatim>\<open>handleOptimize\<close> closes
  over: the counts, the source intensity, the spectral correction, the beam pattern and
  the threshold.
\<close>

definition candidateCoverage ::
  "nat \<Rightarrow> nat \<Rightarrow> real \<Rightarrow> real \<Rightarrow> BeamPoint list \<Rightarrow> real \<Rightarrow> real \<Rightarrow> real \<Rightarrow> real \<Rightarrow> real \<Rightarrow> real
     \<Rightarrow> error + real" where
  "candidateCoverage ledCount' rowCount' I s bp threshold targetW targetH targetR h v =
     (let cfg = generateLedConfig ledCount' h rowCount' v;
          maxHits = length (samples targetW targetH targetR)
      in case countHits (samples targetW targetH targetR) cfg I s bp threshold 0 of
           Inl e \<Rightarrow> Inl e
         | Inr hits \<Rightarrow> Inr ((real hits / real maxHits) * 100))"

definition optimizerCoverage ::
  "SimulationParams \<Rightarrow> real \<Rightarrow> real \<Rightarrow> real \<Rightarrow> real \<Rightarrow> real \<Rightarrow> error + real" where
  "optimizerCoverage params targetW targetH targetR h v =
     (case spectralCorrection params of
        Inl e \<Rightarrow> Inl e
      | Inr s \<Rightarrow>
          candidateCoverage (ledCount params) (rowCount params) (sourceIntensity params) s
            (beamPattern params) (effectiveThreshold params) targetW targetH targetR h v)"


text \<open>The application's initial parameters and optimizer targets.\<close>

definition initialParams :: SimulationParams where
  "initialParams =
     \<lparr>ledCount = 3, spreadAngle = 45, rowCount = 1, verticalSpreadAngle = 0,
      peakCandela = 1.0, wavelength = 525, logThreshold = - 6, isFlashing = False,
      beamPattern = DEFAULT_BEAM_PATTERN\<rparr>"

section \<open>Contour extraction (utils/marchSquares.ts)\<close>

text \<open>
  A grid holds its samples in a typed array; reading past its end gives
  \<^verbatim>\<open>undefined\<close>, which is \<open>None\<close> here.  A comparison with \<^verbatim>\<open>undefined\<close> is false, and
  arithmetic on it gives NaN: a coordinate is a \<open>real option\<close> whose \<open>None\<close> is NaN.
  The fields \<^verbatim>\<open>x\<close> and \<^verbatim>\<open>y\<close> of a \<^verbatim>\<open>Point\<close> are \<open>px\<close> and \<open>py\<close>.
\<close>

record GridData =
  data :: "real list"
  width :: nat
  height :: nat
  minX :: real
  maxX :: real
  minY :: real
  maxY :: real

record Point =
  px :: "real option"
  py :: "real option"

text \<open>
  The key \<^verbatim>\<open>`${type}:${x}:${y}`\<close> of a grid edge, as the triple it prints: two keys are
  the same string exactly when their triples are equal.
\<close>

datatype EdgeType = EdgeH | EdgeV

type_synonym edgeKey = "EdgeType \<times> nat \<times> nat"

type_synonym nodeMap = "edgeKey \<rightharpoonup> Point"

text \<open>
  The map \<^verbatim>\<open>adj\<close> is iterated, so it is an association list in insertion order:
  setting a new key appends it, and pushing to a key's array changes its entry in place.
\<close>

type_synonym adjMap = "(edgeKey \<times> edgeKey list) list"

definition interpolate :: "real option \<Rightarrow> real option \<Rightarrow> real \<Rightarrow> real \<Rightarrow> real \<Rightarrow> real option" where
  "interpolate val1 val2 out1 out2 threshold =
     (case (val1, val2) of
        (Some v1, Some v2) \<Rightarrow>
          Some (if \<bar>v2 - v1\<bar> < 1 / 10 ^ 9 then (out1 + out2) / 2
                else out1 + (out2 - out1) * ((threshold - v1) / (v2 - v1)))
      | _ \<Rightarrow> None)"

definition getX :: "GridData \<Rightarrow> nat \<Rightarrow> real" where
  "getX g gx = minX g + real gx * ((maxX g - minX g) / (real (width g) - 1))"

definition getY :: "GridData \<Rightarrow> nat \<Rightarrow> real" where
  "getY g gy = minY g + real gy * ((maxY g - minY g) / (real (height g) - 1))"

definition getVal :: "GridData \<Rightarrow> nat \<Rightarrow> nat \<Rightarrow> real option" where
  "getVal g gx gy =
     (let i = gy * width g + gx
      in if i < length (data g) then Some (data g ! i) else None)"

definition getEdgeKey :: "EdgeType \<Rightarrow> nat \<Rightarrow> nat \<Rightarrow> edgeKey" where
  "getEdgeKey t x y = (t, x, y)"

definition addNode :: "edgeKey \<Rightarrow> Point \<Rightarrow> nodeMap \<Rightarrow> nodeMap" where
  "addNode key p edgeNodes = (if edgeNodes key = None then edgeNodes(key \<mapsto> p) else edgeNodes)"

definition neighbors :: "adjMap \<Rightarrow> edgeKey \<Rightarrow> edgeKey list" where
  "neighbors adj k = (case map_of adj k of None \<Rightarrow> [] | Some n \<Rightarrow> n)"

definition addConnection :: "edgeKey \<Rightarrow> edgeKey \<Rightarrow> adjMap \<Rightarrow> adjMap" where
  "addConnection k1 k2 adj =
     (let adj1 = (if map_of adj k1 = None then AList.update k1 [] adj else adj);
          adj2 = (if map_of adj1 k2 = None then AList.update k2 [] adj1 else adj1);
          adj3 = AList.map_entry k1 (\<lambda>n. n @ [k2]) adj2
      in AList.map_entry k2 (\<lambda>n. n @ [k1]) adj3)"

text \<open>The comparison \<^verbatim>\<open>v >= threshold\<close> of a grid value that may be \<^verbatim>\<open>undefined\<close>.\<close>

definition geThreshold :: "real option \<Rightarrow> real \<Rightarrow> bool" where
  "geThreshold v threshold = (case v of None \<Rightarrow> False | Some a \<Rightarrow> a \<ge> threshold)"

definition cellConfig :: "real option \<Rightarrow> real option \<Rightarrow> real option \<Rightarrow> real option \<Rightarrow> real \<Rightarrow> nat" where
  "cellConfig vTL vTR vBR vBL threshold =
     (let c0 = 0;
          c1 = (if geThreshold vTL threshold then c0 OR 8 else c0);
          c2 = (if geThreshold vTR threshold then c1 OR 4 else c1);
          c3 = (if geThreshold vBR threshold then c2 OR 2 else c2);
          c4 = (if geThreshold vBL threshold then c3 OR 1 else c3)
      in c4)"

text \<open>
  The \<^verbatim>\<open>switch (config)\<close>: the calls of \<^verbatim>\<open>addConnection\<close> it makes, in order.
\<close>

definition cellConnections ::
  "nat \<Rightarrow> edgeKey \<Rightarrow> edgeKey \<Rightarrow> edgeKey \<Rightarrow> edgeKey \<Rightarrow> (edgeKey \<times> edgeKey) list" where
  "cellConnections config kTop kRight kBottom kLeft =
     (if config = 1 then [(kLeft, kBottom)]
      else if config = 2 then [(kBottom, kRight)]
      else if config = 3 then [(kLeft, kRight)]
      else if config = 4 then [(kTop, kRight)]
      else if config = 5 then [(kTop, kLeft), (kBottom, kRight)]
      else if config = 6 then [(kTop, kBottom)]
      else if config = 7 then [(kTop, kLeft)]
      else if config = 8 then [(kLeft, kTop)]
      else if config = 9 then [(kTop, kBottom)]
      else if config = 10 then [(kTop, kRight), (kLeft, kBottom)]
      else if config = 11 then [(kTop, kRight)]
      else if config = 12 then [(kLeft, kRight)]
      else if config = 13 then [(kBottom, kRight)]
      else if config = 14 then [(kLeft, kBottom)]
      else [])"

definition connectEdges :: "(edgeKey \<times> edgeKey) list \<Rightarrow> adjMap \<Rightarrow> adjMap" where
  "connectEdges cs adj = fold (\<lambda>(k1, k2). addConnection k1 k2) cs adj"

text \<open>The body of the two nested loops, for the cell \<open>(gx, gy)\<close>.\<close>

definition processCell ::
  "GridData \<Rightarrow> real \<Rightarrow> nat \<times> nat \<Rightarrow> nodeMap \<times> adjMap \<Rightarrow> nodeMap \<times> adjMap" where
  "processCell g threshold cell st =
     (let gx = fst cell; gy = snd cell;
          vTL = getVal g gx gy;
          vTR = getVal g (gx + 1) gy;
          vBR = getVal g (gx + 1) (gy + 1);
          vBL = getVal g gx (gy + 1);
          config = cellConfig vTL vTR vBR vBL threshold
      in if config = 0 \<or> config = 15 then st
         else
           let kTop = getEdgeKey EdgeH gx gy;
               n1 = (if (config AND 8) \<noteq> (config AND 4)
                     then addNode kTop
                            \<lparr>px = interpolate vTL vTR (getX g gx) (getX g (gx + 1)) threshold,
                             py = Some (getY g gy)\<rparr> (fst st)
                     else fst st);
               kRight = getEdgeKey EdgeV (gx + 1) gy;
               n2 = (if (config AND 4) \<noteq> (config AND 2)
                     then addNode kRight
                            \<lparr>px = Some (getX g (gx + 1)),
                             py = interpolate vTR vBR (getY g gy) (getY g (gy + 1)) threshold\<rparr> n1
                     else n1);
               kBottom = getEdgeKey EdgeH gx (gy + 1);
               n3 = (if (config AND 1) \<noteq> (config AND 2)
                     then addNode kBottom
                            \<lparr>px = interpolate vBL vBR (getX g gx) (getX g (gx + 1)) threshold,
                             py = Some (getY g (gy + 1))\<rparr> n2
                     else n2);
               kLeft = getEdgeKey EdgeV gx gy;
               n4 = (if (config AND 8) \<noteq> (config AND 1)
                     then addNode kLeft
                            \<lparr>px = Some (getX g gx),
                             py = interpolate vTL vBL (getY g gy) (getY g (gy + 1)) threshold\<rparr> n3
                     else n3)
           in (n4, connectEdges (cellConnections config kTop kRight kBottom kLeft) (snd st)))"

text \<open>
  The cells in the order of the loops: \<open>gy\<close> from 0 below \<open>height - 1\<close>, and for each
  \<open>gx\<close> from 0 below \<open>width - 1\<close>.
\<close>

definition cells :: "GridData \<Rightarrow> (nat \<times> nat) list" where
  "cells g = concat (map (\<lambda>gy. map (\<lambda>gx. (gx, gy)) [0..<width g - 1]) [0..<height g - 1])"

definition buildGraph :: "GridData \<Rightarrow> real \<Rightarrow> nodeMap \<times> adjMap" where
  "buildGraph g threshold = fold (processCell g threshold) (cells g) (Map.empty, [])"

subsection \<open>Graph traversal\<close>

text \<open>
  The loop of \<^verbatim>\<open>trace\<close>: while \<^verbatim>\<open>curr\<close> (here \<open>cur\<close>) is defined and unvisited, visit it, push its
  node and go on to its first unvisited neighbour.  The set \<^verbatim>\<open>visited\<close> is shared by all
  traces, so it is passed in and returned.  The push of \<^verbatim>\<open>edgeNodes.get(curr)!\<close> asserts
  that the key has a node; a key without one is answered by \<open>TypeError\<close> here.  The
  loop ends because every round visits a key of \<^verbatim>\<open>adj\<close> that was not visited before.
  (The first loop over \<^verbatim>\<open>adj.keys()\<close> in the source and the search for \<^verbatim>\<open>lastKey\<close>
  change nothing and are left out.)
\<close>

function traceLoop ::
  "adjMap \<Rightarrow> nodeMap \<Rightarrow> edgeKey set \<Rightarrow> Point list \<Rightarrow> edgeKey option
     \<Rightarrow> error + (Point list \<times> edgeKey set)" where
  "traceLoop adj edgeNodes visited path cur =
     (case cur of
        None \<Rightarrow> Inr (path, visited)
      | Some c \<Rightarrow>
          if c \<in> visited then Inr (path, visited)
          else
            (case edgeNodes c of
               None \<Rightarrow> Inl TypeError
             | Some p \<Rightarrow>
                 traceLoop adj edgeNodes (insert c visited) (path @ [p])
                   (find (\<lambda>k. k \<notin> insert c visited) (neighbors adj c))))"
  by pat_completeness auto
termination
proof (relation "measures
    [\<lambda>(adj, edgeNodes, visited, path, cur). card (fst ` set adj - visited),
     \<lambda>(adj, edgeNodes, visited, path, cur). (if cur = None then 0 else 1)]")
  show "wf (measures
    [\<lambda>(adj, edgeNodes, visited, path, cur). card (fst ` set adj - visited),
     \<lambda>(adj :: adjMap, edgeNodes :: nodeMap, visited :: edgeKey set, path :: Point list,
        cur :: edgeKey option). (if cur = None then 0 else (1::nat))])"
    by simp
next
  fix adj :: adjMap and edgeNodes :: nodeMap and visited :: "edgeKey set"
    and path :: "Point list" and cur :: "edgeKey option" and c :: edgeKey and p :: Point
  assume cur: "cur = Some c" and c: "c \<notin> visited"
  show "((adj, edgeNodes, insert c visited, path @ [p],
          find (\<lambda>k. k \<notin> insert c visited) (neighbors adj c)),
         (adj, edgeNodes, visited, path, cur))
        \<in> measures
    [\<lambda>(adj, edgeNodes, visited, path, cur). card (fst ` set adj - visited),
     \<lambda>(adj, edgeNodes, visited, path, cur). (if cur = None then 0 else 1)]"
  proof (cases "c \<in> fst ` set adj")
    case True
    have "fst ` set adj - insert c visited \<subset> fst ` set adj - visited"
      using True c by blast
    then have "card (fst ` set adj - insert c visited) < card (fst ` set adj - visited)"
      by (intro psubset_card_mono) auto
    then show ?thesis by simp
  next
    case False
    then have "map_of adj c = None"
      by (simp add: map_of_eq_None_iff)
    then have "neighbors adj c = []"
      by (simp add: neighbors_def)
    moreover have "fst ` set adj - insert c visited = fst ` set adj - visited"
      using False by blast
    ultimately show ?thesis using cur by simp
  qed
qed

declare traceLoop.simps [simp del]

definition trace :: "adjMap \<Rightarrow> nodeMap \<Rightarrow> edgeKey set \<Rightarrow> edgeKey \<Rightarrow> error + (Point list \<times> edgeKey set)" where
  "trace adj edgeNodes visited start = traceLoop adj edgeNodes visited [] (Some start)"

definition endpoints :: "adjMap \<Rightarrow> edgeKey list" where
  "endpoints adj = map fst (filter (\<lambda>(key, n). length n = 1) adj)"

definition midpoints :: "adjMap \<Rightarrow> edgeKey list" where
  "midpoints adj = map fst (filter (\<lambda>(key, n). length n \<noteq> 1) adj)"

text \<open>The loop that traces the open paths from the endpoints.\<close>

fun traceOpenPaths ::
  "adjMap \<Rightarrow> nodeMap \<Rightarrow> edgeKey list \<Rightarrow> edgeKey set \<Rightarrow> Point list list
     \<Rightarrow> error + (Point list list \<times> edgeKey set)" where
  "traceOpenPaths adj edgeNodes [] visited paths = Inr (paths, visited)"
| "traceOpenPaths adj edgeNodes (k # ks) visited paths =
     (if k \<notin> visited
      then (case trace adj edgeNodes visited k of
              Inl e \<Rightarrow> Inl e
            | Inr (path, visited') \<Rightarrow> traceOpenPaths adj edgeNodes ks visited' (paths @ [path]))
      else traceOpenPaths adj edgeNodes ks visited paths)"

text \<open>
  The loop that traces the loops from the remaining keys; a path of more than two
  points gets its first point again at its end.
\<close>

fun traceLoops ::
  "adjMap \<Rightarrow> nodeMap \<Rightarrow> edgeKey list \<Rightarrow> edgeKey set \<Rightarrow> Point list list
     \<Rightarrow> error + (Point list list \<times> edgeKey set)" where
  "traceLoops adj edgeNodes [] visited paths = Inr (paths, visited)"
| "traceLoops adj edgeNodes (k # ks) visited paths =
     (if k \<notin> visited
      then (case trace adj edgeNodes visited k of
              Inl e \<Rightarrow> Inl e
            | Inr (path, visited') \<Rightarrow>
                traceLoops adj edgeNodes ks visited'
                  (paths @ [if length path > 2 then path @ [path ! 0] else path]))
      else traceLoops adj edgeNodes ks visited paths)"

subsection \<open>Chaikin smoothing\<close>

text \<open>
  Arithmetic and comparison on coordinates: a NaN operand makes the sum NaN and the
  comparison false.
\<close>

definition blend :: "real \<Rightarrow> real option \<Rightarrow> real \<Rightarrow> real option \<Rightarrow> real option" where
  "blend a u b w =
     (case (u, w) of (Some u', Some w') \<Rightarrow> Some (a * u' + b * w') | _ \<Rightarrow> None)"

definition closeTo :: "real option \<Rightarrow> real option \<Rightarrow> bool" where
  "closeTo u w =
     (case (u, w) of (Some u', Some w') \<Rightarrow> \<bar>u' - w'\<bar> < 1 / 10 ^ 5 | _ \<Rightarrow> False)"

text \<open>The inner loop: every segment \<open>p0, p1\<close> gives the two points \<open>Q\<close> and \<open>R\<close>.\<close>

fun cutCorners :: "Point list \<Rightarrow> Point list" where
  "cutCorners (p0 # p1 # ps) =
     \<lparr>px = blend 0.75 (px p0) 0.25 (px p1), py = blend 0.75 (py p0) 0.25 (py p1)\<rparr> #
     \<lparr>px = blend 0.25 (px p0) 0.75 (px p1), py = blend 0.25 (py p0) 0.75 (py p1)\<rparr> #
     cutCorners (p1 # ps)"
| "cutCorners ps = []"

text \<open>
  One round of the outer loop.  \<^verbatim>\<open>smoothChaikin\<close> enters the loop with three points
  or more and every round returns more points than it got; on fewer than two points,
  where the source would read a field of \<^verbatim>\<open>undefined\<close> in this round or the next, the
  round is answered by \<open>TypeError\<close>.
\<close>

definition chaikinRound :: "Point list \<Rightarrow> error + Point list" where
  "chaikinRound current =
     (if length current < 2 then Inl TypeError
      else
        let isClosed = closeTo (px (current ! 0)) (px (current ! (length current - 1))) \<and>
                       closeTo (py (current ! 0)) (py (current ! (length current - 1)));
            next = cutCorners current
        in if \<not> isClosed
           then Inr ([current ! 0] @ next @ [current ! (length current - 1)])
           else Inr (next @ [next ! 0]))"

fun chaikinRounds :: "nat \<Rightarrow> Point list \<Rightarrow> error + Point list" where
  "chaikinRounds 0 current = Inr current"
| "chaikinRounds (Suc k) current =
     (case chaikinRound current of
        Inl e \<Rightarrow> Inl e
      | Inr next \<Rightarrow> chaikinRounds k next)"

definition smoothChaikin :: "Point list \<Rightarrow> nat \<Rightarrow> error + Point list" where
  "smoothChaikin points iterations =
     (if iterations = 0 \<or> length points < 3 then Inr points
      else chaikinRounds iterations points)"

text \<open>\<^verbatim>\<open>paths.map(p => smoothChaikin(p, 2))\<close>; the first exception ends it.\<close>

fun smoothAll :: "Point list list \<Rightarrow> error + Point list list" where
  "smoothAll [] = Inr []"
| "smoothAll (p # ps) =
     (case smoothChaikin p 2 of
        Inl e \<Rightarrow> Inl e
      | Inr q \<Rightarrow> (case smoothAll ps of Inl e \<Rightarrow> Inl e | Inr qs \<Rightarrow> Inr (q # qs)))"

definition marchSquares :: "GridData \<Rightarrow> real \<Rightarrow> error + Point list list" where
  "marchSquares g threshold =
     (let (edgeNodes, adj) = buildGraph g threshold
      in case traceOpenPaths adj edgeNodes (endpoints adj) {} [] of
           Inl e \<Rightarrow> Inl e
         | Inr (paths, visited) \<Rightarrow>
             (case traceLoops adj edgeNodes (midpoints adj) visited paths of
                Inl e \<Rightarrow> Inl e
              | Inr (paths', visited') \<Rightarrow> smoothAll paths'))"

text \<open>Grids for the examples: a saddle cell, a flat-topped cell and a hot centre.\<close>

definition saddleGrid :: GridData where
  "saddleGrid =
     \<lparr>data = [10, 0, 0, 10], width = 2, height = 2, minX = 0, maxX = 1, minY = 0, maxY = 1\<rparr>"

definition topRowGrid :: GridData where
  "topRowGrid =
     \<lparr>data = [10, 10, 0, 0], width = 2, height = 2, minX = 0, maxX = 1, minY = 0, maxY = 1\<rparr>"

definition hotCentreGrid :: GridData where
  "hotCentreGrid =
     \<lparr>data = [0, 0, 0, 0, 10, 0, 0, 0, 0], width = 3, height = 3,
      minX = 0, maxX = 2, minY = 0, maxY = 2\<rparr>"

subsection \<open>Notions for the analysis of the graph\<close>

text \<open>The keys a list of connections joins to the key \<open>k\<close>, in the order of the pushes.\<close>

definition partners :: "(edgeKey \<times> edgeKey) list \<Rightarrow> edgeKey \<Rightarrow> edgeKey list" where
  "partners cs k =
     concat (map (\<lambda>(a, b). (if k = a then [b] else []) @ (if k = b then [a] else [])) cs)"

text \<open>
  The connections the cell \<open>(gx, gy)\<close> adds: the switch at the cell's configuration and
  keys.
\<close>

definition cellConns :: "GridData \<Rightarrow> real \<Rightarrow> nat \<times> nat \<Rightarrow> (edgeKey \<times> edgeKey) list" where
  "cellConns g threshold cell =
     cellConnections
       (cellConfig (getVal g (fst cell) (snd cell)) (getVal g (fst cell + 1) (snd cell))
          (getVal g (fst cell + 1) (snd cell + 1)) (getVal g (fst cell) (snd cell + 1)) threshold)
       (EdgeH, fst cell, snd cell) (EdgeV, fst cell + 1, snd cell)
       (EdgeH, fst cell, snd cell + 1) (EdgeV, fst cell, snd cell)"

text \<open>The four edge keys of a cell: top, right, bottom, left.\<close>

definition cellEdges :: "nat \<times> nat \<Rightarrow> edgeKey set" where
  "cellEdges cell =
     {(EdgeH, fst cell, snd cell), (EdgeV, fst cell + 1, snd cell),
      (EdgeH, fst cell, snd cell + 1), (EdgeV, fst cell, snd cell)}"

text \<open>All connections of a list of cells, in order.\<close>

definition allConns :: "GridData \<Rightarrow> real \<Rightarrow> (nat \<times> nat) list \<Rightarrow> (edgeKey \<times> edgeKey) list" where
  "allConns g threshold cs = concat (map (cellConns g threshold) cs)"

text \<open>
  The two cells a grid edge can belong to: the one it is the top or left edge of, and
  the one above or left of that.
\<close>

fun cellA :: "edgeKey \<Rightarrow> nat \<times> nat" where
  "cellA (t, x, y) = (x, y)"

fun cellB :: "edgeKey \<Rightarrow> nat \<times> nat" where
  "cellB (EdgeH, x, y) = (x, y - 1)"
| "cellB (EdgeV, x, y) = (x - 1, y)"

text \<open>The keys for which the four bit tests of a cell's configuration add a node.\<close>

definition activeEdges :: "nat \<Rightarrow> edgeKey \<Rightarrow> edgeKey \<Rightarrow> edgeKey \<Rightarrow> edgeKey \<Rightarrow> edgeKey set" where
  "activeEdges c kT kR kB kL =
     (if (c AND 8) \<noteq> (c AND 4) then {kT} else {}) \<union>
     (if (c AND 4) \<noteq> (c AND 2) then {kR} else {}) \<union>
     (if (c AND 1) \<noteq> (c AND 2) then {kB} else {}) \<union>
     (if (c AND 8) \<noteq> (c AND 1) then {kL} else {})"

text \<open>
  What the traversal relies on: distinct keys, symmetric neighbour lists of at most two
  distinct keys without self-loops, a node for every connected key, and the keys of
  \<^verbatim>\<open>adj\<close> being the connected ones.
\<close>

definition graphOK :: "adjMap \<Rightarrow> nodeMap \<Rightarrow> bool" where
  "graphOK adj edgeNodes \<longleftrightarrow>
     distinct (map fst adj) \<and>
     (\<forall>k k'. k' \<in> set (neighbors adj k) \<longrightarrow> k \<in> set (neighbors adj k')) \<and>
     (\<forall>k. length (neighbors adj k) \<le> 2 \<and> distinct (neighbors adj k) \<and>
          k \<notin> set (neighbors adj k)) \<and>
     (\<forall>k. neighbors adj k \<noteq> [] \<longrightarrow> edgeNodes k \<noteq> None) \<and>
     (\<forall>k. k \<in> fst ` set adj \<longleftrightarrow> neighbors adj k \<noteq> [])"

text \<open>A set of visited keys that holds every neighbour of its members.\<close>

definition closedUnder :: "adjMap \<Rightarrow> edgeKey set \<Rightarrow> bool" where
  "closedUnder adj V \<longleftrightarrow> (\<forall>k\<in>V. set (neighbors adj k) \<subseteq> V)"

section \<open>Properties of the photometric core\<close>

subsection \<open>Backface culling\<close>

lemma d_safe_pos: "0 < d_safe x y z"
  by (simp add: d_safe_def less_max_iff_disj)

lemma cosTheta_eq:
  "cosTheta x y z angleH angleV =
     (sin angleH * cos angleV * x + cos angleH * cos angleV * y + sin angleV * z) / d_safe x y z"
  by (simp add: cosTheta_def Let_def add_divide_distrib)

text \<open>
  Claim C6.  A point whose dot product with the source's direction vector
  \<open>(sin H cos V, cos H cos V, sin V)\<close> is at most 0 gets exactly 0 from
  \<^const>\<open>calculateIlluminance\<close>, whatever the distance, the peak intensity, the
  spectral factor and the beam pattern (the empty pattern included: the culling
  returns before the pattern is read).
\<close>

theorem backface_culling:
  assumes "sin angleH * cos angleV * x + cos angleH * cos angleV * y + sin angleV * z \<le> 0"
  shows "calculateIlluminance x y z angleH angleV peak spectralFactor bp = Inr 0"
proof -
  have "cosTheta x y z angleH angleV \<le> 0"
    unfolding cosTheta_eq using assms d_safe_pos [of x y z]
    by (simp add: divide_le_0_iff)
  then show ?thesis
    by (simp add: calculateIlluminance_def)
qed

theorem backface_culling_witness:
  "sin 0 * cos 0 * 0 + cos 0 * cos 0 * (- 1) + sin 0 * 0 \<le> (0::real) \<and>
   calculateIlluminance 0 (- 1) 0 0 0 1 1 DEFAULT_BEAM_PATTERN = Inr 0"
  using backface_culling [of 0 0 0 "- 1" 0 1 1 DEFAULT_BEAM_PATTERN] by simp

subsection \<open>The beam-pattern lookup at a degenerate pair\<close>







subsection \<open>Table lookup and spectral correction\<close>

lemma ascending_nth:
  "ascending tbl \<Longrightarrow> i < j \<Longrightarrow> j < length tbl \<Longrightarrow> fst (tbl ! i) + 1 / 10 ^ 9 \<le> fst (tbl ! j)"
proof -
  assume a: "ascending tbl" and ij: "i < j" "j < length tbl"
  have "transp (\<lambda>p q :: real \<times> real. fst p + 1 / 10 ^ 9 \<le> fst q)"
    by (rule transpI) simp
  with a have "sorted_wrt (\<lambda>p q. fst p + 1 / 10 ^ 9 \<le> fst q) tbl"
    by (simp add: ascending_def successively_conv_sorted_wrt)
  with ij show ?thesis by (simp add: sorted_wrt_iff_nth_less)
qed

lemma ascending_Cons: "ascending (p # ps) \<Longrightarrow> ascending ps"
  by (auto simp add: ascending_def successively_Cons)

lemma lerp_linear:
  "x0 + 1 / 10 ^ 9 \<le> x1 \<Longrightarrow> lerp x x0 x1 y0 y1 = y0 + (x - x0) * (y1 - y0) / (x1 - x0)"
  by (simp add: lerp_def)

lemma lookupLoop_linear:
  assumes "ascending ps" and "i + 1 < length ps"
    and "fst (ps ! i) \<le> w" and "w \<le> fst (ps ! (i + 1))"
  shows "lookupLoop ps w =
           snd (ps ! i) + (w - fst (ps ! i)) * (snd (ps ! (i + 1)) - snd (ps ! i)) /
             (fst (ps ! (i + 1)) - fst (ps ! i))"
  using assms
proof (induction ps w arbitrary: i rule: lookupLoop.induct)
  case (1 p0 p1 ps w)
  have gap01: "fst p0 + 1 / 10 ^ 9 \<le> fst p1"
    using ascending_nth [OF "1.prems"(1), of 0 1] by simp
  show ?case
  proof (cases i)
    case 0
    with "1.prems" gap01 show ?thesis by (simp add: lerp_linear)
  next
    case (Suc i')
    show ?thesis
    proof (cases "w \<ge> fst p0 \<and> w \<le> fst p1")
      case True
      have i': "i' = 0"
      proof (rule ccontr)
        assume "i' \<noteq> 0"
        then have "1 < i" using Suc by simp
        then have "fst ((p0 # p1 # ps) ! 1) + 1 / 10 ^ 9 \<le> fst ((p0 # p1 # ps) ! i)"
          using ascending_nth [OF "1.prems"(1), of 1 i] "1.prems"(2) by simp
        with True "1.prems"(3) show False by simp
      qed
      with Suc have i: "i = 1" by simp
      from True "1.prems"(3) i have w: "w = fst p1" by simp
      have gap12: "fst p1 + 1 / 10 ^ 9 \<le> fst ((p0 # p1 # ps) ! 2)"
        using ascending_nth [OF "1.prems"(1), of 1 2] "1.prems"(2) i by simp
      have "lookupLoop (p0 # p1 # ps) w = snd p1"
        using True w gap01 by (simp add: lerp_def)
      then show ?thesis using i w by simp
    next
      case False
      have "lookupLoop (p1 # ps) w =
              snd ((p1 # ps) ! i') + (w - fst ((p1 # ps) ! i')) *
                (snd ((p1 # ps) ! (i' + 1)) - snd ((p1 # ps) ! i')) /
                (fst ((p1 # ps) ! (i' + 1)) - fst ((p1 # ps) ! i'))"
      proof (rule "1.IH" [OF False])
        show "ascending (p1 # ps)" using "1.prems"(1) by (rule ascending_Cons)
      qed (use "1.prems" Suc in simp_all)
      with False Suc show ?thesis by auto
    qed
  qed
qed simp_all

lemma getLookupValue_clamped:
  assumes "ascending tbl" and "tbl \<noteq> []"
  shows "\<exists>r. getLookupValue tbl w = Inr r \<and> clampedPiecewiseLinear tbl w r"
proof -
  obtain p ps where tbl: "tbl = p # ps" using assms(2) by (cases tbl) auto
  have first_last: "fst (hd tbl) \<le> fst (last tbl)"
  proof (cases "length tbl = 1")
    case True
    then show ?thesis using tbl by simp
  next
    case False
    then have "0 < length tbl - 1" "length tbl - 1 < length tbl" using tbl by auto
    from ascending_nth [OF assms(1) this] show ?thesis
      using assms(2) by (simp add: hd_conv_nth last_conv_nth)
  qed
  consider (lo) "w \<le> fst p" | (hi) "\<not> w \<le> fst p" "w \<ge> fst (last tbl)"
    | (mid) "\<not> w \<le> fst p" "\<not> w \<ge> fst (last tbl)" by blast
  then show ?thesis
  proof cases
    case lo
    then have r: "getLookupValue tbl w = Inr (snd p)"
      by (simp add: getLookupValue_def tbl)
    have c2: "w \<ge> fst (last tbl) \<Longrightarrow> snd p = snd (last tbl)"
    proof -
      assume h: "w \<ge> fst (last tbl)"
      have "length tbl = 1"
      proof (rule ccontr)
        assume "length tbl \<noteq> 1"
        then have "0 < length tbl - 1" "length tbl - 1 < length tbl" using tbl by auto
        from ascending_nth [OF assms(1) this] have "fst (hd tbl) + 1 / 10 ^ 9 \<le> fst (last tbl)"
          using assms(2) by (simp add: hd_conv_nth last_conv_nth)
        with lo h tbl show False by simp
      qed
      then show ?thesis using tbl by simp
    qed
    have c3: "snd p = snd (tbl ! i) + (w - fst (tbl ! i)) * (snd (tbl ! (i + 1)) - snd (tbl ! i)) /
              (fst (tbl ! (i + 1)) - fst (tbl ! i))"
      if h: "i + 1 < length tbl" "fst (tbl ! i) \<le> w" "w \<le> fst (tbl ! (i + 1))" for i
    proof -
      have "i = 0"
      proof (rule ccontr)
        assume "i \<noteq> 0"
        then have "fst (tbl ! 0) + 1 / 10 ^ 9 \<le> fst (tbl ! i)"
          using ascending_nth [OF assms(1), of 0 i] h(1) by simp
        with lo h(2) tbl show False by simp
      qed
      moreover have "w = fst p" using lo h(2) \<open>i = 0\<close> tbl by simp
      ultimately show ?thesis using tbl by simp
    qed
    have "clampedPiecewiseLinear tbl w (snd p)"
      unfolding clampedPiecewiseLinear_def
    proof (intro conjI allI impI)
      show "snd p = snd (hd tbl)" using tbl by simp
      show "fst (last tbl) \<le> w \<Longrightarrow> snd p = snd (last tbl)" by (rule c2)
      show "i + 1 < length tbl \<and> fst (tbl ! i) \<le> w \<and> w \<le> fst (tbl ! (i + 1)) \<Longrightarrow>
         snd p = snd (tbl ! i) + (w - fst (tbl ! i)) * (snd (tbl ! (i + 1)) - snd (tbl ! i)) /
              (fst (tbl ! (i + 1)) - fst (tbl ! i))" for i
        using c3 [of i] by blast
    qed
    with r show ?thesis by blast
  next
    case hi
    then have r: "getLookupValue tbl w = Inr (snd (last tbl))"
      by (simp add: getLookupValue_def tbl)
    have c3: "snd (last tbl) = snd (tbl ! i) + (w - fst (tbl ! i)) * (snd (tbl ! (i + 1)) - snd (tbl ! i)) /
              (fst (tbl ! (i + 1)) - fst (tbl ! i))"
      if h: "i + 1 < length tbl" "fst (tbl ! i) \<le> w" "w \<le> fst (tbl ! (i + 1))" for i
    proof -
      have il: "i + 1 = length tbl - 1"
      proof (rule ccontr)
        assume "i + 1 \<noteq> length tbl - 1"
        then have "i + 1 < length tbl - 1" using h(1) by simp
        then have "fst (tbl ! (i + 1)) + 1 / 10 ^ 9 \<le> fst (tbl ! (length tbl - 1))"
          using ascending_nth [OF assms(1), of "i + 1" "length tbl - 1"] h(1) by simp
        with hi(2) h(3) assms(2) show False by (simp add: last_conv_nth)
      qed
      then have l: "last tbl = tbl ! (i + 1)" using assms(2) by (simp add: last_conv_nth)
      with hi(2) h(3) have w: "w = fst (tbl ! (i + 1))" by simp
      have "fst (tbl ! i) + 1 / 10 ^ 9 \<le> fst (tbl ! (i + 1))"
        using ascending_nth [OF assms(1), of i "i + 1"] h(1) by simp
      then show ?thesis using l w by simp
    qed
    have "clampedPiecewiseLinear tbl w (snd (last tbl))"
      unfolding clampedPiecewiseLinear_def
    proof (intro conjI allI impI)
      show "w \<le> fst (hd tbl) \<Longrightarrow> snd (last tbl) = snd (hd tbl)" using hi(1) tbl by simp
      show "snd (last tbl) = snd (last tbl)" ..
      show "i + 1 < length tbl \<and> fst (tbl ! i) \<le> w \<and> w \<le> fst (tbl ! (i + 1)) \<Longrightarrow>
         snd (last tbl) = snd (tbl ! i) + (w - fst (tbl ! i)) * (snd (tbl ! (i + 1)) - snd (tbl ! i)) /
              (fst (tbl ! (i + 1)) - fst (tbl ! i))" for i
        using c3 [of i] by blast
    qed
    with r show ?thesis by blast
  next
    case mid
    then have r: "getLookupValue tbl w = Inr (lookupLoop tbl w)"
      by (simp add: getLookupValue_def tbl)
    have "clampedPiecewiseLinear tbl w (lookupLoop tbl w)"
      unfolding clampedPiecewiseLinear_def
    proof (intro conjI allI impI)
      show "w \<le> fst (hd tbl) \<Longrightarrow> lookupLoop tbl w = snd (hd tbl)" using mid(1) tbl by simp
      show "fst (last tbl) \<le> w \<Longrightarrow> lookupLoop tbl w = snd (last tbl)" using mid(2) by simp
      show "i + 1 < length tbl \<and> fst (tbl ! i) \<le> w \<and> w \<le> fst (tbl ! (i + 1)) \<Longrightarrow>
         lookupLoop tbl w = snd (tbl ! i) + (w - fst (tbl ! i)) * (snd (tbl ! (i + 1)) - snd (tbl ! i)) /
              (fst (tbl ! (i + 1)) - fst (tbl ! i))" for i
        using lookupLoop_linear [OF assms(1), of i w] by blast
    qed
    with r show ?thesis by blast
  qed
qed

lemma ascending_SCOTOPIC: "ascending SCOTOPIC_DATA"
  by (simp add: ascending_def SCOTOPIC_DATA_def)

lemma ascending_PHOTOPIC: "ascending PHOTOPIC_DATA"
  by (simp add: ascending_def PHOTOPIC_DATA_def)

lemma clampedPiecewiseLinear_segment:
  "clampedPiecewiseLinear tbl w r \<Longrightarrow> i + 1 < length tbl \<Longrightarrow>
   fst (tbl ! i) \<le> w \<Longrightarrow> w \<le> fst (tbl ! (i + 1)) \<Longrightarrow>
   r = snd (tbl ! i) + (w - fst (tbl ! i)) * (snd (tbl ! (i + 1)) - snd (tbl ! i)) /
         (fst (tbl ! (i + 1)) - fst (tbl ! i))"
  unfolding clampedPiecewiseLinear_def by blast

lemma getLookupValue_total: "tbl \<noteq> [] \<Longrightarrow> \<exists>r. getLookupValue tbl w = Inr r"
  by (cases tbl) (simp_all add: getLookupValue_def)

lemma SCOTOPIC_DATA_nonempty: "SCOTOPIC_DATA \<noteq> []"
  by (simp add: SCOTOPIC_DATA_def)

lemma PHOTOPIC_DATA_nonempty: "PHOTOPIC_DATA \<noteq> []"
  by (simp add: PHOTOPIC_DATA_def)

lemma getSpectralCorrectionFactor_ge_1:
  "\<exists>f. getSpectralCorrectionFactor w = Inr f \<and> 1 \<le> f"
proof -
  obtain s where s: "getLookupValue SCOTOPIC_DATA w = Inr s"
    using getLookupValue_total [OF SCOTOPIC_DATA_nonempty] by blast
  obtain p where p: "getLookupValue PHOTOPIC_DATA w = Inr p"
    using getLookupValue_total [OF PHOTOPIC_DATA_nonempty] by blast
  show ?thesis
    by (simp add: getSpectralCorrectionFactor_def s p Let_def)
qed

text \<open>
  Claim C9.  For every wavelength the spectral correction factor is returned, is at
  least 1, equals 1 from 700 nm on, and below 700 nm equals
  \<open>max 1 (2.489 * scotopic / max photopic 1e-6)\<close>, where the scotopic and photopic
  values are the lookups in the two CIE tables, both clamped piecewise-linear.
\<close>

theorem spectral_correction_factor:
  "\<exists>f s p. getSpectralCorrectionFactor w = Inr f \<and> 1 \<le> f \<and>
     getLookupValue SCOTOPIC_DATA w = Inr s \<and> clampedPiecewiseLinear SCOTOPIC_DATA w s \<and>
     getLookupValue PHOTOPIC_DATA w = Inr p \<and> clampedPiecewiseLinear PHOTOPIC_DATA w p \<and>
     f = (if w \<ge> 700 then 1 else max 1 (2.489 * s / max p (1 / 10 ^ 6)))"
proof -
  obtain s where s: "getLookupValue SCOTOPIC_DATA w = Inr s" "clampedPiecewiseLinear SCOTOPIC_DATA w s"
    using getLookupValue_clamped [OF ascending_SCOTOPIC SCOTOPIC_DATA_nonempty, of w] by blast
  obtain p where p: "getLookupValue PHOTOPIC_DATA w = Inr p" "clampedPiecewiseLinear PHOTOPIC_DATA w p"
    using getLookupValue_clamped [OF ascending_PHOTOPIC PHOTOPIC_DATA_nonempty, of w] by blast
  have f: "getSpectralCorrectionFactor w =
             Inr (if w \<ge> 700 then 1 else max 1 (2.489 * s / max p (1 / 10 ^ 6)))"
    by (simp add: getSpectralCorrectionFactor_def s(1) p(1) Let_def)
  have "1 \<le> (if w \<ge> 700 then 1 else max 1 (2.489 * s / max p (1 / 10 ^ 6)))"
    by simp
  with f s p show ?thesis by blast
qed

theorem spectral_correction_factor_witness:
  "\<exists>f s p. getSpectralCorrectionFactor 450 = Inr f \<and> 1 \<le> f \<and>
     getLookupValue SCOTOPIC_DATA 450 = Inr s \<and>
     s = 0.3281 + (450 - 440) * (0.647 - 0.3281) / (460 - 440) \<and>
     getLookupValue PHOTOPIC_DATA 450 = Inr p \<and>
     p = 0.023 + (450 - 440) * (0.06 - 0.023) / (460 - 440) \<and>
     f = 2.489 * s / p"
proof -
  obtain f s p where h: "getSpectralCorrectionFactor 450 = Inr f" "1 \<le> f"
     "getLookupValue SCOTOPIC_DATA 450 = Inr s" "clampedPiecewiseLinear SCOTOPIC_DATA 450 s"
     "getLookupValue PHOTOPIC_DATA 450 = Inr p" "clampedPiecewiseLinear PHOTOPIC_DATA 450 p"
     "f = (if (450::real) \<ge> 700 then 1 else max 1 (2.489 * s / max p (1 / 10 ^ 6)))"
    using spectral_correction_factor [of 450] by blast
  have s: "s = 0.3281 + (450 - 440) * (0.647 - 0.3281) / (460 - 440)"
    using clampedPiecewiseLinear_segment [OF h(4), of 3] by (simp add: SCOTOPIC_DATA_def)
  have p: "p = 0.023 + (450 - 440) * (0.06 - 0.023) / (460 - 440)"
    using clampedPiecewiseLinear_segment [OF h(6), of 3] by (simp add: PHOTOPIC_DATA_def)
  have "f = 2.489 * s / p" using h(7) by (simp add: s p)
  with h s p show ?thesis by blast
qed

subsection \<open>Totality and range of the illuminance\<close>

lemma getBeamIntensityDynamic_total:
  "bp \<noteq> [] \<Longrightarrow> \<exists>r. getBeamIntensityDynamic bp a = Inr r"
  by (cases bp) (simp_all add: getBeamIntensityDynamic_def Let_def)

lemma calculateIlluminance_total:
  assumes "bp \<noteq> []"
  shows "\<exists>r. calculateIlluminance x y z angleH angleV peak s bp = Inr r"
proof -
  obtain rel where rel: "getBeamIntensityDynamic bp
      (arccos (min 1 (cosTheta x y z angleH angleV)) * (180 / pi)) = Inr rel"
    using getBeamIntensityDynamic_total [OF assms(1)] by blast
  from rel show ?thesis
    by (simp add: calculateIlluminance_def Let_def)
qed

lemma lerp_le:
  assumes "x0 \<le> x" "x \<le> x1" "y0 \<le> m" "y1 \<le> m"
  shows "lerp x x0 x1 y0 y1 \<le> m"
proof (cases "\<bar>x1 - x0\<bar> < 1 / 10 ^ 9")
  case True
  with assms(3) show ?thesis by (simp add: lerp_def)
next
  case False
  with assms(1,2) have pos: "0 < x1 - x0" by auto
  define t where "t = (x - x0) / (x1 - x0)"
  have t: "0 \<le> t" "t \<le> 1" using assms(1,2) pos by (simp_all add: t_def)
  have "lerp x x0 x1 y0 y1 = y0 + t * (y1 - y0)"
    using False by (simp add: lerp_def t_def)
  also have "\<dots> = (1 - t) * y0 + t * y1" by (simp add: algebra_simps)
  also have "\<dots> \<le> (1 - t) * m + t * m"
    using t assms(3,4) by (intro add_mono mult_left_mono) simp_all
  also have "\<dots> = m" by (simp add: algebra_simps)
  finally show ?thesis .
qed

lemma beamLoop_le:
  "0 \<le> m \<Longrightarrow> \<forall>p\<in>set ps. intensity p \<le> m \<Longrightarrow> beamLoop ps a \<le> m"
proof (induction ps a rule: beamLoop.induct)
  case (1 p0 p1 ps a)
  then show ?case by (auto intro: lerp_le)
qed simp_all

lemma getBeamIntensityDynamic_le:
  assumes "0 \<le> m" "\<forall>p\<in>set bp. intensity p \<le> m" "getBeamIntensityDynamic bp a = Inr rel"
  shows "rel \<le> m"
proof (cases bp)
  case Nil
  with assms(3) show ?thesis by (simp add: getBeamIntensityDynamic_def)
next
  case (Cons p ps)
  have "beamLoop bp \<bar>a\<bar> \<le> m" using assms(1,2) by (rule beamLoop_le)
  moreover have "intensity p \<le> m" using assms(2) Cons by simp
  ultimately show ?thesis
    using assms(1,3) Cons by (auto simp: getBeamIntensityDynamic_def Let_def split: if_splits)
qed

lemma d_safe_ge: "0.05 \<le> d_safe x y z"
  by (simp add: d_safe_def)

lemma inverse_square_le: "1 / (d_safe x y z * d_safe x y z) \<le> 400"
proof -
  have "0.05 * 0.05 \<le> d_safe x y z * d_safe x y z"
    using d_safe_ge [of x y z] by (intro mult_mono) simp_all
  then have "1 / (d_safe x y z * d_safe x y z) \<le> 1 / (0.05 * 0.05 :: real)"
    by (intro divide_left_mono) simp_all
  then show ?thesis by simp
qed

lemma calculateIlluminance_range:
  assumes "bp \<noteq> []" and "0 \<le> peak" and "0 \<le> s"
    and "\<forall>p\<in>set bp. 0 \<le> intensity p \<and> intensity p \<le> m"
  shows "\<exists>r. calculateIlluminance x y z angleH angleV peak s bp = Inr r \<and>
           0 \<le> r \<and> r \<le> 400 * (peak * s * m)"
proof -
  obtain p0 where "p0 \<in> set bp" using assms(1) by (cases bp) auto
  with assms(4) have m: "0 \<le> m" by force
  have bound0: "0 \<le> 400 * (peak * s * m)" using assms(2,3) m by simp
  let ?a = "arccos (min 1 (cosTheta x y z angleH angleV)) * (180 / pi)"
  let ?d = "d_safe x y z"
  obtain rel where rel: "getBeamIntensityDynamic bp ?a = Inr rel"
    using getBeamIntensityDynamic_total [OF assms(1)] by blast
  have relm: "rel \<le> m"
    using m _ rel by (rule getBeamIntensityDynamic_le) (use assms(4) in blast)
  show ?thesis
  proof (cases "cosTheta x y z angleH angleV \<le> 0.001 \<or> rel \<le> 0")
    case True
    with rel have "calculateIlluminance x y z angleH angleV peak s bp = Inr 0"
      by (auto simp: calculateIlluminance_def Let_def)
    with bound0 show ?thesis by simp
  next
    case False
    with rel have r: "calculateIlluminance x y z angleH angleV peak s bp =
        Inr (peak * s * rel * exp (- ALPHA * ?d) / (?d * ?d))"
      by (simp add: calculateIlluminance_def Let_def)
    have e: "0 \<le> peak * s * rel" "peak * s * rel \<le> peak * s * m"
      using assms(2,3) False relm by (simp_all add: mult_left_mono)
    have T: "exp (- ALPHA * ?d) \<le> 1" "0 < exp (- ALPHA * ?d)"
      using d_safe_pos [of x y z] by (simp_all add: ALPHA_def)
    have n1: "0 \<le> peak * s * rel * exp (- ALPHA * ?d)"
      using e(1) T(2) by simp
    have "peak * s * rel * exp (- ALPHA * ?d) \<le> peak * s * m * 1"
    proof (rule mult_mono)
      show "peak * s * rel \<le> peak * s * m" by (rule e(2))
      show "exp (- ALPHA * ?d) \<le> 1" by (rule T(1))
      show "0 \<le> peak * s * m" using assms(2,3) m by simp
      show "0 \<le> exp (- ALPHA * ?d)" by simp
    qed
    then have n2: "peak * s * rel * exp (- ALPHA * ?d) \<le> peak * s * m" by simp
    note n = n1 n2
    have nonneg: "0 \<le> peak * s * rel * exp (- ALPHA * ?d) / (?d * ?d)"
      using n(1) d_safe_pos [of x y z] by simp
    have "peak * s * rel * exp (- ALPHA * ?d) / (?d * ?d) =
          (peak * s * rel * exp (- ALPHA * ?d)) * (1 / (?d * ?d))" by simp
    also have "\<dots> \<le> (peak * s * m) * 400"
    proof (rule mult_mono)
      show "peak * s * rel * exp (- ALPHA * ?d) \<le> peak * s * m" by (rule n(2))
      show "1 / (?d * ?d) \<le> 400" by (rule inverse_square_le)
      show "0 \<le> peak * s * m" using assms(2,3) m by simp
      show "0 \<le> 1 / (?d * ?d)" using d_safe_pos [of x y z] by simp
    qed
    finally have "peak * s * rel * exp (- ALPHA * ?d) / (?d * ?d) \<le> 400 * (peak * s * m)"
      by simp
    with r nonneg show ?thesis by simp
  qed
qed

lemma MAX_VALUE_between: "(10::real) ^ 200 \<le> MAX_VALUE \<and> MAX_VALUE < 10 ^ 200 * 10 ^ 200 * (1 / 2)"
  by (simp add: MAX_VALUE_def)

text \<open>
  Claim C5, as far as it holds.  Let the beam pattern be non-empty with intensities
  between 0 and 1 (the range of the data model), the peak intensity and the spectral
  factor be non-negative, and 400 times their product be at most \<^const>\<open>MAX_VALUE\<close>,
  the largest double.  Then \<^const>\<open>calculateIlluminance\<close> throws nothing and returns
  a non-negative number within the double range: the distance is at least 0.05, the
  transmissivity at most 1 and the relative intensity at most 1, so the source's
  products \<^verbatim>\<open>peakCandela * spectralFactor * relativeIntensity\<close> and
  \<^verbatim>\<open>I_effective * T\<close> and the quotient by \<^verbatim>\<open>d_safe * d_safe\<close> are at most
  \<open>400 * peak * spectralFactor\<close>.
\<close>

theorem illuminance_total_nonneg_bounded:
  assumes "bp \<noteq> []"
    and "\<forall>p\<in>set bp. 0 \<le> intensity p \<and> intensity p \<le> 1"
    and "0 \<le> peak" and "0 \<le> s" and "400 * (peak * s) \<le> MAX_VALUE"
  shows "\<exists>r. calculateIlluminance x y z angleH angleV peak s bp = Inr r \<and>
           0 \<le> r \<and> finiteNumber r"
proof -
  from calculateIlluminance_range [OF assms(1,3,4,2), of x y z angleH angleV]
  obtain r where r: "calculateIlluminance x y z angleH angleV peak s bp = Inr r"
    "0 \<le> r" "r \<le> 400 * (peak * s)" by auto
  from r(2,3) assms(5) have "finiteNumber r" by (simp add: finiteNumber_def)
  with r(1,2) show ?thesis by blast
qed

theorem illuminance_total_nonneg_bounded_witness:
  "DEFAULT_BEAM_PATTERN \<noteq> [] \<and> 400 * ((1::real) * 1) \<le> MAX_VALUE \<and>
   (\<exists>r. calculateIlluminance 3 100 2 0 0 1 1 DEFAULT_BEAM_PATTERN = Inr r \<and>
        0 \<le> r \<and> finiteNumber r)"
proof -
  have ne: "DEFAULT_BEAM_PATTERN \<noteq> []" by (simp add: DEFAULT_BEAM_PATTERN_def)
  have b: "\<forall>p\<in>set DEFAULT_BEAM_PATTERN. 0 \<le> intensity p \<and> intensity p \<le> 1"
    by (simp add: DEFAULT_BEAM_PATTERN_def)
  have "(400::real) \<le> 10 ^ 200" by simp
  with MAX_VALUE_between have m: "400 * ((1::real) * 1) \<le> MAX_VALUE" by simp
  from illuminance_total_nonneg_bounded [OF ne b _ _ m, of 3 100 2 0 0] ne m
  show ?thesis by simp
qed

lemma on_axis_illuminance:
  "calculateIlluminance 0 1 0 0 0 peak s DEFAULT_BEAM_PATTERN = Inr (peak * s * exp (- ALPHA))"
proof -
  have d: "d_safe 0 1 0 = 1" by (simp add: d_safe_def)
  have c: "cosTheta 0 1 0 0 0 = 1" by (simp add: cosTheta_def d)
  show ?thesis
    by (simp add: calculateIlluminance_def c d getBeamIntensityDynamic_def DEFAULT_BEAM_PATTERN_def)
qed

text \<open>
  Without the bound on the product the claim fails: straight ahead at distance 1, with
  the peak intensity and the spectral factor both \<open>10\<^sup>2\<^sup>0\<^sup>0\<close> (finite doubles), the exact
  result lies beyond \<^const>\<open>MAX_VALUE\<close>; the source's product
  \<^verbatim>\<open>peakCandela * spectralFactor\<close> is \<^verbatim>\<open>Infinity\<close> there, and so is what it returns.
\<close>

theorem illuminance_overflow_counterexample:
  "finiteNumber (10 ^ 200) \<and> (0::real) \<le> 10 ^ 200 \<and> DEFAULT_BEAM_PATTERN \<noteq> [] \<and>
   (\<exists>r. calculateIlluminance 0 1 0 0 0 (10 ^ 200) (10 ^ 200) DEFAULT_BEAM_PATTERN = Inr r \<and>
        \<not> finiteNumber r)"
proof -
  define P :: real where "P = 10 ^ 200"
  have P: "0 \<le> P" "P \<le> MAX_VALUE" "MAX_VALUE < P * P * (1 / 2)"
    unfolding P_def using MAX_VALUE_between by simp_all
  have f: "finiteNumber P" using P(1,2) by (simp add: finiteNumber_def)
  have ne: "DEFAULT_BEAM_PATTERN \<noteq> []" by (simp add: DEFAULT_BEAM_PATTERN_def)
  have "(1::real) / 2 \<le> 1 + (- ALPHA)" by (simp add: ALPHA_def)
  also have "\<dots> \<le> exp (- ALPHA)" by (rule exp_ge_add_one_self)
  finally have "P * P * (1 / 2) \<le> P * P * exp (- ALPHA)"
    using P(1) by (intro mult_left_mono) simp_all
  with P(3) have "MAX_VALUE < P * P * exp (- ALPHA)" by simp
  then have "\<not> finiteNumber (P * P * exp (- ALPHA))"
    by (simp add: finiteNumber_def)
  with f P(1) ne on_axis_illuminance [of P P] show ?thesis
    unfolding P_def by blast
qed

section \<open>Properties of the geometry optimizer\<close>

subsection \<open>The sample lattice and the coverage score\<close>

lemma totalIlluminance_total:
  assumes "bp \<noteq> []"
  shows "\<exists>r. totalIlluminance cfg p I s bp t = Inr r"
proof (induction cfg arbitrary: t)
  case Nil
  show ?case by simp
next
  case (Cons c cfg)
  obtain a where "calculateIlluminance (x3 p) (y3 p) (z3 p) (cfg_h c) (cfg_v c) I s bp = Inr a"
    using calculateIlluminance_total [OF assms] by blast
  with Cons.IH [of "t + a"] show ?case by simp
qed









subsection \<open>Monotonicity in the peak intensity\<close>

lemma calculateIlluminance_mono:
  assumes "I \<le> I'" and "0 \<le> s"
  shows "rel_sum (=) (\<le>) (calculateIlluminance x y z angleH angleV I s bp)
           (calculateIlluminance x y z angleH angleV I' s bp)"
proof (cases "cosTheta x y z angleH angleV \<le> 0.001")
  case True
  then show ?thesis by (simp add: calculateIlluminance_def)
next
  case False
  show ?thesis
  proof (cases "getBeamIntensityDynamic bp
      (arccos (min 1 (cosTheta x y z angleH angleV)) * (180 / pi))")
    case (Inl e)
    with False show ?thesis by (simp add: calculateIlluminance_def Let_def)
  next
    case (Inr rel)
    show ?thesis
    proof (cases "rel \<le> 0")
      case True
      with False Inr show ?thesis by (simp add: calculateIlluminance_def Let_def)
    next
      case rpos: False
      have "I * s * rel \<le> I' * s * rel"
        using assms rpos by (simp add: mult_right_mono)
      then have "I * s * rel * exp (- ALPHA * d_safe x y z) \<le> I' * s * rel * exp (- ALPHA * d_safe x y z)"
        by (simp add: mult_right_mono)
      then have "I * s * rel * exp (- ALPHA * d_safe x y z) / (d_safe x y z * d_safe x y z)
            \<le> I' * s * rel * exp (- ALPHA * d_safe x y z) / (d_safe x y z * d_safe x y z)"
        by (rule divide_right_mono) simp
      with False Inr rpos show ?thesis by (simp add: calculateIlluminance_def Let_def)
    qed
  qed
qed

lemma totalIlluminance_mono:
  assumes "I \<le> I'" and "0 \<le> s"
  shows "t \<le> t' \<Longrightarrow>
    rel_sum (=) (\<le>) (totalIlluminance cfg p I s bp t) (totalIlluminance cfg p I' s bp t')"
proof (induction cfg arbitrary: t t')
  case Nil
  then show ?case by simp
next
  case (Cons c cfg)
  have m: "rel_sum (=) (\<le>) (calculateIlluminance (x3 p) (y3 p) (z3 p) (cfg_h c) (cfg_v c) I s bp)
           (calculateIlluminance (x3 p) (y3 p) (z3 p) (cfg_h c) (cfg_v c) I' s bp)"
    using assms by (rule calculateIlluminance_mono)
  show ?case
  proof (cases "calculateIlluminance (x3 p) (y3 p) (z3 p) (cfg_h c) (cfg_v c) I s bp")
    case (Inl e)
    with m obtain e' where "calculateIlluminance (x3 p) (y3 p) (z3 p) (cfg_h c) (cfg_v c) I' s bp = Inl e'" "e = e'"
      by (cases "calculateIlluminance (x3 p) (y3 p) (z3 p) (cfg_h c) (cfg_v c) I' s bp") auto
    with Inl show ?thesis by simp
  next
    case (Inr a)
    with m obtain a' where a': "calculateIlluminance (x3 p) (y3 p) (z3 p) (cfg_h c) (cfg_v c) I' s bp = Inr a'" "a \<le> a'"
      by (cases "calculateIlluminance (x3 p) (y3 p) (z3 p) (cfg_h c) (cfg_v c) I' s bp") auto
    have "t + a \<le> t' + a'" using Cons.prems a'(2) by simp
    from Cons.IH [OF this] Inr a'(1) show ?thesis by simp
  qed
qed

lemma countHits_mono:
  assumes "I \<le> I'" and "0 \<le> s"
  shows "n \<le> n' \<Longrightarrow>
    rel_sum (=) (\<le>) (countHits ps cfg I s bp thr n) (countHits ps cfg I' s bp thr n')"
proof (induction ps arbitrary: n n')
  case Nil
  then show ?case by simp
next
  case (Cons p ps)
  have m: "rel_sum (=) (\<le>) (totalIlluminance cfg p I s bp 0) (totalIlluminance cfg p I' s bp 0)"
    using assms by (rule totalIlluminance_mono) simp
  show ?case
  proof (cases "totalIlluminance cfg p I s bp 0")
    case (Inl e)
    with m obtain e' where "totalIlluminance cfg p I' s bp 0 = Inl e'" "e = e'"
      by (cases "totalIlluminance cfg p I' s bp 0") auto
    with Inl show ?thesis by simp
  next
    case (Inr a)
    with m obtain a' where a': "totalIlluminance cfg p I' s bp 0 = Inr a'" "a \<le> a'"
      by (cases "totalIlluminance cfg p I' s bp 0") auto
    have "(if a \<ge> thr then n + 1 else n) \<le> (if a' \<ge> thr then n' + 1 else n')"
      using Cons.prems a'(2) by auto
    from Cons.IH [OF this] Inr a'(1) show ?thesis by simp
  qed
qed

lemma candidateCoverage_mono:
  assumes "I \<le> I'" and "0 \<le> s"
  shows "rel_sum (=) (\<le>) (candidateCoverage lc rc I s bp thr tw th tr h v)
           (candidateCoverage lc rc I' s bp thr tw th tr h v)"
proof -
  let ?cfg = "generateLedConfig lc h rc v"
  let ?ps = "samples tw th tr"
  have m: "rel_sum (=) (\<le>) (countHits ?ps ?cfg I s bp thr 0) (countHits ?ps ?cfg I' s bp thr 0)"
    using assms by (rule countHits_mono) simp
  show ?thesis
  proof (cases "countHits ?ps ?cfg I s bp thr 0")
    case (Inl e)
    with m obtain e' where "countHits ?ps ?cfg I' s bp thr 0 = Inl e'" "e = e'"
      by (cases "countHits ?ps ?cfg I' s bp thr 0") auto
    with Inl show ?thesis by (simp add: candidateCoverage_def Let_def)
  next
    case (Inr k)
    with m obtain k' where k': "countHits ?ps ?cfg I' s bp thr 0 = Inr k'" "k \<le> k'"
      by (cases "countHits ?ps ?cfg I' s bp thr 0") auto
    have "real k / real (length ?ps) * 100 \<le> real k' / real (length ?ps) * 100"
      using k'(2) by (simp add: divide_right_mono)
    with Inr k'(1) show ?thesis by (simp add: candidateCoverage_def Let_def)
  qed
qed

text \<open>
  Claim C8.  With the target box, the candidate \<open>(h, v)\<close> and every other parameter
  fixed, raising the peak intensity never lowers the coverage score; it throws at the
  higher intensity exactly when it throws at the lower one.  The spectral factor and
  the threshold are the ones the application derives from the wavelength and the
  threshold settings.
\<close>

theorem coverage_monotone_in_peak:
  assumes "peakCandela params \<le> peak'"
  shows "rel_sum (=) (\<le>) (optimizerCoverage params tw th tr h v)
           (optimizerCoverage (params\<lparr>peakCandela := peak'\<rparr>) tw th tr h v)"
proof -
  obtain s where s: "getSpectralCorrectionFactor (wavelength params) = Inr s" "1 \<le> s"
    using getSpectralCorrectionFactor_ge_1 by blast
  have I: "sourceIntensity params \<le> sourceIntensity (params\<lparr>peakCandela := peak'\<rparr>)"
    using assms by (simp add: sourceIntensity_def isInfrared_def)
  have "0 \<le> s" using s(2) by simp
  from candidateCoverage_mono [OF I this] s(1) show ?thesis
    by (simp add: optimizerCoverage_def spectralCorrection_def effectiveThreshold_def)
qed

theorem coverage_monotone_in_peak_witness:
  "peakCandela initialParams \<le> 2 \<and>
   rel_sum (=) (\<le>) (optimizerCoverage initialParams 1000 600 2000 30 10)
     (optimizerCoverage (initialParams\<lparr>peakCandela := 2\<rparr>) 1000 600 2000 30 10)"
  using coverage_monotone_in_peak [of initialParams 2 1000 600 2000 30 10]
  by (simp add: initialParams_def)

section \<open>Properties of the contour extraction\<close>

subsection \<open>The adjacency map as a list of connections\<close>

lemma partners_Nil [simp]: "partners [] k = []"
  by (simp add: partners_def)

lemma partners_append: "partners (cs @ ds) k = partners cs k @ partners ds k"
  by (simp add: partners_def)

lemma partners_Cons:
  "partners ((a, b) # cs) k =
     (if k = a then [b] else []) @ (if k = b then [a] else []) @ partners cs k"
  by (simp add: partners_def)

lemma partners_concat: "partners (concat css) k = concat (map (\<lambda>cs. partners cs k) css)"
  by (induction css) (simp_all add: partners_append)

lemma in_partners_iff: "k' \<in> set (partners cs k) \<longleftrightarrow> (k, k') \<in> set cs \<or> (k', k) \<in> set cs"
  by (induction cs) (auto simp: partners_Cons)

lemma neighbors_entry:
  "distinct (map fst adj) \<Longrightarrow> (k, n) \<in> set adj \<Longrightarrow> neighbors adj k = n"
  by (simp add: neighbors_def)

lemma neighbors_addConnection:
  "neighbors (addConnection k1 k2 adj) k =
     neighbors adj k @ (if k = k1 then [k2] else []) @ (if k = k2 then [k1] else [])"
  by (auto simp: addConnection_def neighbors_def Let_def map_of_map_entry update_conv'
      split: option.splits)

lemma keys_addConnection:
  "fst ` set (addConnection k1 k2 adj) = fst ` set adj \<union> {k1, k2}"
  by (auto simp: addConnection_def Let_def dom_map_entry dom_update map_of_eq_None_iff)

lemma distinct_addConnection:
  "distinct (map fst adj) \<Longrightarrow> distinct (map fst (addConnection k1 k2 adj))"
  by (simp add: addConnection_def Let_def distinct_map_entry distinct_update)

lemma neighbors_connectEdges:
  "neighbors (connectEdges cs adj) k = neighbors adj k @ partners cs k"
  unfolding connectEdges_def
  by (induction cs arbitrary: adj) (auto simp: partners_Cons neighbors_addConnection)

lemma keys_connectEdges:
  "fst ` set (connectEdges cs adj) = fst ` set adj \<union> fst ` set cs \<union> snd ` set cs"
proof (induction cs arbitrary: adj)
  case Nil
  show ?case by (simp add: connectEdges_def)
next
  case (Cons c cs)
  obtain a b where c: "c = (a, b)" by (cases c)
  have "connectEdges (c # cs) adj = connectEdges cs (addConnection a b adj)"
    by (simp add: connectEdges_def c)
  then show ?case
    by (simp add: Cons.IH keys_addConnection c Un_ac insert_commute)
qed

lemma distinct_connectEdges:
  "distinct (map fst adj) \<Longrightarrow> distinct (map fst (connectEdges cs adj))"
  unfolding connectEdges_def
  by (induction cs arbitrary: adj) (auto simp: distinct_addConnection)

lemma cellConnections_0 [simp]: "cellConnections 0 kT kR kB kL = []"
  by (simp add: cellConnections_def)

lemma cellConnections_15 [simp]: "cellConnections 15 kT kR kB kL = []"
  by (simp add: cellConnections_def)

lemma snd_processCell:
  "snd (processCell g threshold cell st) = connectEdges (cellConns g threshold cell) (snd st)"
  by (auto simp: processCell_def cellConns_def Let_def getEdgeKey_def connectEdges_def)

lemma connectEdges_append: "connectEdges (cs @ ds) adj = connectEdges ds (connectEdges cs adj)"
  by (simp add: connectEdges_def)

lemma snd_fold_processCell:
  "snd (fold (processCell g threshold) cs st) = connectEdges (allConns g threshold cs) (snd st)"
proof (induction cs arbitrary: st)
  case Nil
  show ?case by (simp add: allConns_def connectEdges_def)
next
  case (Cons c cs)
  show ?case
    using Cons.IH [of "processCell g threshold c st"]
    by (simp add: snd_processCell allConns_def connectEdges_append)
qed

lemma neighbors_Nil [simp]: "neighbors [] k = []"
  by (simp add: neighbors_def)

lemma neighbors_buildGraph:
  "neighbors (snd (buildGraph g threshold)) k = partners (allConns g threshold (cells g)) k"
  by (simp add: buildGraph_def snd_fold_processCell neighbors_connectEdges)

lemma keys_buildGraph:
  "fst ` set (snd (buildGraph g threshold)) =
     fst ` set (allConns g threshold (cells g)) \<union> snd ` set (allConns g threshold (cells g))"
  by (simp add: buildGraph_def snd_fold_processCell keys_connectEdges)

lemma distinct_keys_buildGraph: "distinct (map fst (snd (buildGraph g threshold)))"
  by (simp add: buildGraph_def snd_fold_processCell distinct_connectEdges)

subsection \<open>Degrees\<close>

lemma partners_cellConnections:
  assumes "distinct [kT, kR, kB, kL]"
  shows "length (partners (cellConnections c kT kR kB kL) k) \<le> 1 \<and>
         set (partners (cellConnections c kT kR kB kL) k) \<subseteq> {kT, kR, kB, kL} - {k} \<and>
         (k \<notin> {kT, kR, kB, kL} \<longrightarrow> partners (cellConnections c kT kR kB kL) k = [])"
  using assms by (auto simp: cellConnections_def partners_Cons)

lemma partners_cellConns:
  "length (partners (cellConns g threshold cell) k) \<le> 1 \<and>
   set (partners (cellConns g threshold cell) k) \<subseteq> cellEdges cell - {k} \<and>
   (k \<notin> cellEdges cell \<longrightarrow> partners (cellConns g threshold cell) k = [])"
proof -
  obtain gx gy where cell: "cell = (gx, gy)" by (cases cell)
  show ?thesis
    unfolding cellConns_def cellEdges_def cell
    by (rule partners_cellConnections) simp
qed

lemma cellEdges_cases: "k \<in> cellEdges cell \<Longrightarrow> cell = cellA k \<or> cell = cellB k"
  by (cases cell; cases k rule: cellB.cases) (auto simp: cellEdges_def)

lemma cellEdges_inter:
  "cellA k \<noteq> cellB k \<Longrightarrow> cellEdges (cellA k) \<inter> cellEdges (cellB k) \<subseteq> {k}"
  by (cases k rule: cellB.cases) (auto simp: cellEdges_def)

lemma distinct_cells: "distinct (cells g)"
proof -
  have "distinct (concat (map (\<lambda>gy. map (\<lambda>gx. (gx, gy)) xs) ys))"
    if "distinct xs" "distinct ys" for xs ys :: "nat list"
    using that by (induction ys) (auto simp: distinct_map inj_on_def)
  then show ?thesis by (simp add: cells_def)
qed

lemma concat_support_none:
  "\<forall>x\<in>set xs. f x = [] \<Longrightarrow> concat (map f xs) = []"
  by (induction xs) auto

lemma concat_support_one:
  "distinct xs \<Longrightarrow> \<forall>x\<in>set xs. x \<noteq> a \<longrightarrow> f x = [] \<Longrightarrow>
   concat (map f xs) = [] \<or> concat (map f xs) = f a"
proof (induction xs)
  case Nil
  show ?case by simp
next
  case (Cons x xs)
  show ?case
  proof (cases "x = a")
    case True
    with Cons.prems have "\<forall>y\<in>set xs. f y = []" by auto
    then have "concat (map f xs) = []" by (rule concat_support_none)
    with True show ?thesis by simp
  next
    case False
    with Cons.prems have "f x = []" by simp
    with Cons show ?thesis by simp
  qed
qed

lemma concat_support_two:
  "distinct xs \<Longrightarrow> \<forall>x\<in>set xs. x \<noteq> a \<longrightarrow> x \<noteq> b \<longrightarrow> f x = [] \<Longrightarrow>
   concat (map f xs) = [] \<or> concat (map f xs) = f a \<or> concat (map f xs) = f b \<or>
   concat (map f xs) = f a @ f b \<or> concat (map f xs) = f b @ f a"
proof (induction xs)
  case Nil
  show ?case by simp
next
  case (Cons x xs)
  consider (a) "x = a" | (b) "x = b" | (other) "x \<noteq> a" "x \<noteq> b" by blast
  then show ?case
  proof cases
    case a
    with Cons.prems have "distinct xs" "\<forall>y\<in>set xs. y \<noteq> b \<longrightarrow> f y = []" by auto
    from concat_support_one [OF this] a show ?thesis by auto
  next
    case b
    with Cons.prems have "distinct xs" "\<forall>y\<in>set xs. y \<noteq> a \<longrightarrow> f y = []" by auto
    from concat_support_one [OF this] b show ?thesis by auto
  next
    case other
    with Cons.prems have "f x = []" by simp
    with Cons show ?thesis by simp
  qed
qed

lemma neighbors_buildGraph_cells:
  "neighbors (snd (buildGraph g threshold)) k =
     concat (map (\<lambda>cell. partners (cellConns g threshold cell) k) (cells g))"
  by (simp add: neighbors_buildGraph allConns_def partners_concat comp_def)

lemma neighbors_buildGraph_shape:
  fixes g threshold k
  defines "f \<equiv> \<lambda>cell. partners (cellConns g threshold cell) k"
  defines "n \<equiv> neighbors (snd (buildGraph g threshold)) k"
  shows "n = [] \<or> n = f (cellA k) \<or> n = f (cellB k) \<or>
         (cellA k \<noteq> cellB k \<and> (n = f (cellA k) @ f (cellB k) \<or> n = f (cellB k) @ f (cellA k)))"
proof -
  have supp: "\<forall>cell\<in>set (cells g). cell \<noteq> cellA k \<longrightarrow> cell \<noteq> cellB k \<longrightarrow> f cell = []"
    unfolding f_def using partners_cellConns cellEdges_cases by blast
  have n: "n = concat (map f (cells g))"
    unfolding n_def f_def by (rule neighbors_buildGraph_cells)
  show ?thesis
  proof (cases "cellA k = cellB k")
    case True
    with supp have "\<forall>cell\<in>set (cells g). cell \<noteq> cellA k \<longrightarrow> f cell = []" by simp
    from concat_support_one [OF distinct_cells this] n show ?thesis by auto
  next
    case False
    from concat_support_two [OF distinct_cells supp] n False show ?thesis by auto
  qed
qed

lemma length_neighbors_buildGraph: "length (neighbors (snd (buildGraph g threshold)) k) \<le> 2"
proof -
  have "length (partners (cellConns g threshold (cellA k)) k) \<le> 1"
    "length (partners (cellConns g threshold (cellB k)) k) \<le> 1"
    using partners_cellConns by blast+
  with neighbors_buildGraph_shape [of g threshold k] show ?thesis by auto
qed

lemma distinct_neighbors_buildGraph: "distinct (neighbors (snd (buildGraph g threshold)) k)"
proof -
  let ?fA = "partners (cellConns g threshold (cellA k)) k"
  let ?fB = "partners (cellConns g threshold (cellB k)) k"
  have l: "length ?fA \<le> 1" "length ?fB \<le> 1"
    using partners_cellConns by blast+
  have dA: "distinct ?fA" using l(1) by (cases ?fA) auto
  have dB: "distinct ?fB" using l(2) by (cases ?fB) auto
  have s: "set ?fA \<subseteq> cellEdges (cellA k) - {k}" "set ?fB \<subseteq> cellEdges (cellB k) - {k}"
    using partners_cellConns by blast+
  have disj: "set ?fA \<inter> set ?fB = {}" if "cellA k \<noteq> cellB k"
    using cellEdges_inter [OF that] s by blast
  from neighbors_buildGraph_shape [of g threshold k] dA dB disj show ?thesis
    by (auto simp: Int_commute)
qed

lemma no_self_neighbor_buildGraph: "k \<notin> set (neighbors (snd (buildGraph g threshold)) k)"
proof
  assume "k \<in> set (neighbors (snd (buildGraph g threshold)) k)"
  then obtain cell where "k \<in> set (partners (cellConns g threshold cell) k)"
    unfolding neighbors_buildGraph_cells by auto
  moreover have "set (partners (cellConns g threshold cell) k) \<subseteq> cellEdges cell - {k}"
    using partners_cellConns by blast
  ultimately show False by blast
qed

lemma neighbors_buildGraph_sym:
  "k' \<in> set (neighbors (snd (buildGraph g threshold)) k) \<Longrightarrow>
   k \<in> set (neighbors (snd (buildGraph g threshold)) k')"
  by (auto simp: neighbors_buildGraph in_partners_iff)

lemma keys_buildGraph_iff:
  "k \<in> fst ` set (snd (buildGraph g threshold)) \<longleftrightarrow>
   neighbors (snd (buildGraph g threshold)) k \<noteq> []"
proof -
  let ?cs = "allConns g threshold (cells g)"
  have "neighbors (snd (buildGraph g threshold)) k \<noteq> [] \<longleftrightarrow> (\<exists>k'. k' \<in> set (partners ?cs k))"
    unfolding neighbors_buildGraph by (cases "partners ?cs k") auto
  also have "\<dots> \<longleftrightarrow> k \<in> fst ` set ?cs \<union> snd ` set ?cs"
    by (force simp: in_partners_iff)
  finally show ?thesis by (simp add: keys_buildGraph)
qed

lemma saddleGrid_adj:
  "snd (buildGraph saddleGrid 5) =
     [((EdgeH, 0, 0), [(EdgeV, 1, 0)]), ((EdgeV, 1, 0), [(EdgeH, 0, 0)]),
      ((EdgeV, 0, 0), [(EdgeH, 0, 1)]), ((EdgeH, 0, 1), [(EdgeV, 0, 0)])]"
  by code_simp

text \<open>
  Claim C3.  Every entry of the adjacency map built for any grid and any threshold has
  at most two neighbours: a node's degree is at most 2.
\<close>

theorem degree_at_most_two:
  "(k, n) \<in> set (snd (buildGraph g threshold)) \<Longrightarrow> length n \<le> 2"
proof -
  assume kn: "(k, n) \<in> set (snd (buildGraph g threshold))"
  have "neighbors (snd (buildGraph g threshold)) k = n"
    using distinct_keys_buildGraph kn by (rule neighbors_entry)
  with length_neighbors_buildGraph [of g threshold k] show ?thesis by simp
qed

theorem degree_at_most_two_witness:
  "((EdgeH, 0, 0), [(EdgeV, 1, 0)]) \<in> set (snd (buildGraph saddleGrid 5)) \<and>
   length [(EdgeV, 1 :: nat, 0 :: nat)] \<le> 2"
proof -
  have m: "((EdgeH, 0, 0), [(EdgeV, 1, 0)]) \<in> set (snd (buildGraph saddleGrid 5))"
    by (simp add: saddleGrid_adj)
  from m degree_at_most_two [OF m] show ?thesis by blast
qed

subsection \<open>Saddle cells and active edges\<close>

text \<open>
  Claim C1 at the saddle with TL and BR at or above the threshold (grid values
  10, 0, 0, 10 in row-major order, threshold 5).  The configuration is 10 (TL = 8,
  BR = 2), and the switch joins top to right and left to bottom: two separate
  connections, each around a corner below the threshold (TR, BL).  The claim and the
  comment at \<^verbatim>\<open>case 5\<close> (``Saddle: TL & BR ... Connect TL-Top to TL-Left, and BR-Bottom
  to BR-Right'') want top joined to left and bottom to right there; that is what the
  switch does at configuration 5, which is the saddle of TR and BL.
\<close>

theorem saddle_connects_below_corners:
  "cellConfig (getVal saddleGrid 0 0) (getVal saddleGrid 1 0) (getVal saddleGrid 1 1)
     (getVal saddleGrid 0 1) 5 = 10 \<and>
   cellConnections 10 kTop kRight kBottom kLeft = [(kTop, kRight), (kLeft, kBottom)] \<and>
   cellConnections 5 kTop kRight kBottom kLeft = [(kTop, kLeft), (kBottom, kRight)] \<and>
   snd (buildGraph saddleGrid 5) =
     [((EdgeH, 0, 0), [(EdgeV, 1, 0)]), ((EdgeV, 1, 0), [(EdgeH, 0, 0)]),
      ((EdgeV, 0, 0), [(EdgeH, 0, 1)]), ((EdgeH, 0, 1), [(EdgeV, 0, 0)])]"
  by (simp add: saddleGrid_adj cellConnections_def)
    (simp add: saddleGrid_def getVal_def cellConfig_def geThreshold_def)

text \<open>
  Claim C4 at a cell whose two top corners are both at or above the threshold (grid
  values 10, 10, 0, 0, threshold 5, configuration 12).  The test
  \<^verbatim>\<open>(config & 8) !== (config & 4)\<close> compares 8 with 4 and fires, so a node is stored
  for the top edge although no crossing lies on it; the comment beside the test says
  ``active if bits differ''.
\<close>

theorem node_on_edge_without_crossing:
  "geThreshold (getVal topRowGrid 0 0) 5 \<and> geThreshold (getVal topRowGrid 1 0) 5 \<and>
   fst (buildGraph topRowGrid 5) (EdgeH, 0, 0) = Some \<lparr>px = Some (1 / 2), py = Some 0\<rparr>"
  by (simp add: buildGraph_def cells_def processCell_def getVal_def cellConfig_def geThreshold_def
     cellConnections_def connectEdges_def addConnection_def getEdgeKey_def Let_def addNode_def
     interpolate_def getX_def getY_def topRowGrid_def)

subsection \<open>Every connected key has a node\<close>

lemma cellConfig_less_16: "cellConfig a b c d t < 16"
  by (simp add: cellConfig_def Let_def)

lemma less_16_cases:
  "(c::nat) < 16 \<Longrightarrow> c = 0 \<or> c = 1 \<or> c = 2 \<or> c = 3 \<or> c = 4 \<or> c = 5 \<or> c = 6 \<or> c = 7 \<or>
     c = 8 \<or> c = 9 \<or> c = 10 \<or> c = 11 \<or> c = 12 \<or> c = 13 \<or> c = 14 \<or> c = 15"
  by arith

lemma connections_active:
  assumes "c < 16"
  shows "fst ` set (cellConnections c kT kR kB kL) \<union> snd ` set (cellConnections c kT kR kB kL)
           \<subseteq> activeEdges c kT kR kB kL"
  using less_16_cases [OF assms]
  by (elim disjE) (simp_all add: cellConnections_def activeEdges_def)

lemma dom_addNode: "dom (addNode k p m) = insert k (dom m)"
  by (auto simp: addNode_def)

lemma dom_cond_addNode:
  "dom (if b then addNode k p m else m) = dom m \<union> (if b then {k} else {})"
  by (simp add: dom_addNode)

lemma dom_processCell:
  "dom (fst (processCell g threshold cell st)) =
     dom (fst st) \<union>
     (let c = cellConfig (getVal g (fst cell) (snd cell)) (getVal g (fst cell + 1) (snd cell))
          (getVal g (fst cell + 1) (snd cell + 1)) (getVal g (fst cell) (snd cell + 1)) threshold
      in if c = 0 \<or> c = 15 then {}
         else activeEdges c (EdgeH, fst cell, snd cell) (EdgeV, fst cell + 1, snd cell)
                (EdgeH, fst cell, snd cell + 1) (EdgeV, fst cell, snd cell))"
proof -
  let ?c = "cellConfig (getVal g (fst cell) (snd cell)) (getVal g (fst cell + 1) (snd cell))
          (getVal g (fst cell + 1) (snd cell + 1)) (getVal g (fst cell) (snd cell + 1)) threshold"
  show ?thesis
  proof (cases "?c = 0 \<or> ?c = 15")
    case True
    then have "processCell g threshold cell st = st"
      unfolding processCell_def Let_def by (simp only: if_True)
    with True show ?thesis
      unfolding Let_def by (simp only: if_True Un_empty_right)
  next
    case False
    then show ?thesis
      unfolding processCell_def Let_def getEdgeKey_def activeEdges_def
      by (simp only: if_False fst_conv dom_cond_addNode Un_assoc)
  qed
qed

lemma processCell_nodes_mono: "dom (fst st) \<subseteq> dom (fst (processCell g threshold cell st))"
  unfolding dom_processCell by (rule Un_upper1)

lemma processCell_nodes_conns:
  "fst ` set (cellConns g threshold cell) \<union> snd ` set (cellConns g threshold cell)
     \<subseteq> dom (fst (processCell g threshold cell st))"
proof -
  define c where "c = cellConfig (getVal g (fst cell) (snd cell)) (getVal g (fst cell + 1) (snd cell))
          (getVal g (fst cell + 1) (snd cell + 1)) (getVal g (fst cell) (snd cell + 1)) threshold"
  define A where "A = activeEdges c (EdgeH, fst cell, snd cell) (EdgeV, fst cell + 1, snd cell)
                (EdgeH, fst cell, snd cell + 1) (EdgeV, fst cell, snd cell)"
  define C where "C = fst ` set (cellConns g threshold cell) \<union> snd ` set (cellConns g threshold cell)"
  have d: "dom (fst (processCell g threshold cell st)) =
      dom (fst st) \<union> (if c = 0 \<or> c = 15 then {} else A)"
    unfolding dom_processCell c_def A_def Let_def ..
  have conns: "cellConns g threshold cell =
      cellConnections c (EdgeH, fst cell, snd cell) (EdgeV, fst cell + 1, snd cell)
                (EdgeH, fst cell, snd cell + 1) (EdgeV, fst cell, snd cell)"
    unfolding cellConns_def c_def ..
  have "c < 16" unfolding c_def by (rule cellConfig_less_16)
  then have CA: "C \<subseteq> A"
    unfolding C_def A_def conns by (rule connections_active)
  have "C \<subseteq> (if c = 0 \<or> c = 15 then {} else A)"
  proof (cases "c = 0 \<or> c = 15")
    case True
    then have "cellConns g threshold cell = []"
      unfolding conns by auto
    then have "C = {}" unfolding C_def by simp
    then show ?thesis by simp
  next
    case False
    with CA show ?thesis by simp
  qed
  then have "C \<subseteq> dom (fst (processCell g threshold cell st))"
    unfolding d by blast
  then show ?thesis unfolding C_def .
qed

lemma fold_processCell_nodes_mono:
  "dom (fst st) \<subseteq> dom (fst (fold (processCell g threshold) cs st))"
proof (induction cs arbitrary: st)
  case Nil
  show ?case by simp
next
  case (Cons c cs)
  have "dom (fst st) \<subseteq> dom (fst (processCell g threshold c st))"
    by (rule processCell_nodes_mono)
  also have "\<dots> \<subseteq> dom (fst (fold (processCell g threshold) cs (processCell g threshold c st)))"
    by (rule Cons.IH)
  finally show ?case by simp
qed

lemma fold_processCell_nodes:
  "fst ` set (allConns g threshold cs) \<union> snd ` set (allConns g threshold cs)
     \<subseteq> dom (fst (fold (processCell g threshold) cs st))"
proof (induction cs arbitrary: st)
  case Nil
  show ?case by (simp add: allConns_def)
next
  case (Cons c cs)
  define st' where "st' = processCell g threshold c st"
  define D where "D = dom (fst (fold (processCell g threshold) cs st'))"
  have a: "fst ` set (cellConns g threshold c) \<union> snd ` set (cellConns g threshold c) \<subseteq> D"
    using processCell_nodes_conns [of g threshold c st]
      fold_processCell_nodes_mono [of st' g threshold cs]
    unfolding D_def st'_def by (rule subset_trans)
  have b: "fst ` set (allConns g threshold cs) \<union> snd ` set (allConns g threshold cs) \<subseteq> D"
    unfolding D_def by (rule Cons.IH)
  have "allConns g threshold (c # cs) = cellConns g threshold c @ allConns g threshold cs"
    by (simp add: allConns_def)
  then have "fst ` set (allConns g threshold (c # cs)) \<union> snd ` set (allConns g threshold (c # cs)) =
      (fst ` set (cellConns g threshold c) \<union> snd ` set (cellConns g threshold c)) \<union>
      (fst ` set (allConns g threshold cs) \<union> snd ` set (allConns g threshold cs))"
    by (simp add: image_Un Un_ac)
  with a b have "fst ` set (allConns g threshold (c # cs)) \<union> snd ` set (allConns g threshold (c # cs)) \<subseteq> D"
    by simp
  then show ?case unfolding D_def st'_def by simp
qed

lemma nodes_buildGraph:
  "k \<in> fst ` set (snd (buildGraph g threshold)) \<Longrightarrow> fst (buildGraph g threshold) k \<noteq> None"
proof -
  assume "k \<in> fst ` set (snd (buildGraph g threshold))"
  then have "k \<in> fst ` set (allConns g threshold (cells g)) \<union> snd ` set (allConns g threshold (cells g))"
    by (simp add: keys_buildGraph)
  with fold_processCell_nodes [of g threshold "cells g" "(Map.empty, [])"]
  have "k \<in> dom (fst (buildGraph g threshold))"
    unfolding buildGraph_def by blast
  then show ?thesis by auto
qed

subsection \<open>A trace leaves the visited set closed under neighbours\<close>

lemma graphOK_sym:
  "graphOK adj en \<Longrightarrow> k' \<in> set (neighbors adj k) \<Longrightarrow> k \<in> set (neighbors adj k')"
  unfolding graphOK_def by blast

lemma graphOK_no_self: "graphOK adj en \<Longrightarrow> k \<notin> set (neighbors adj k)"
  unfolding graphOK_def by blast

lemma graphOK_node: "graphOK adj en \<Longrightarrow> k' \<in> set (neighbors adj k) \<Longrightarrow> \<exists>p. en k = Some p"
  unfolding graphOK_def by (metis empty_iff list.set(1) not_None_eq)

lemma short_list_two:
  "length xs \<le> 2 \<Longrightarrow> distinct xs \<Longrightarrow> a \<in> set xs \<Longrightarrow> b \<in> set xs \<Longrightarrow> a \<noteq> b \<Longrightarrow> set xs = {a, b}"
proof -
  assume h: "length xs \<le> 2" "distinct xs" "a \<in> set xs" "b \<in> set xs" "a \<noteq> b"
  then obtain x y where "xs = [x, y]"
    by (cases xs; cases "tl xs"; cases "tl (tl xs)") auto
  with h show ?thesis by auto
qed

lemma short_list_one: "length xs = 1 \<Longrightarrow> a \<in> set xs \<Longrightarrow> set xs = {a}"
  by (cases xs) auto

lemma short_list_other:
  "length xs \<le> 2 \<Longrightarrow> length xs \<noteq> 1 \<Longrightarrow> distinct xs \<Longrightarrow> a \<in> set xs \<Longrightarrow>
   \<exists>w. w \<in> set xs \<and> w \<noteq> a"
  by (cases xs; cases "tl xs"; cases "tl (tl xs)") auto

lemma graphOK_two:
  "graphOK adj en \<Longrightarrow> a \<in> set (neighbors adj c) \<Longrightarrow> b \<in> set (neighbors adj c) \<Longrightarrow> a \<noteq> b \<Longrightarrow>
   set (neighbors adj c) = {a, b}"
  unfolding graphOK_def by (meson short_list_two)

lemma graphOK_other:
  "graphOK adj en \<Longrightarrow> length (neighbors adj c) \<noteq> 1 \<Longrightarrow> a \<in> set (neighbors adj c) \<Longrightarrow>
   \<exists>w. w \<in> set (neighbors adj c) \<and> w \<noteq> a"
  unfolding graphOK_def by (meson short_list_other)

lemma graphOK_entry:
  "graphOK adj en \<Longrightarrow> (k, n) \<in> set adj \<Longrightarrow> neighbors adj k = n"
  unfolding graphOK_def by (blast intro: neighbors_entry)

lemma walk_end:
  assumes ok: "graphOK adj en"
    and phase: "length (neighbors adj s) = 1 \<or> (\<forall>k. length (neighbors adj k) = 1 \<longrightarrow> k \<in> V)"
    and s: "s \<in> V" and pred: "pred \<in> V" and c: "c \<notin> V"
    and cp: "c \<in> set (neighbors adj pred)"
    and a: "\<forall>k\<in>V. k \<noteq> s \<and> k \<noteq> pred \<longrightarrow> set (neighbors adj k) \<subseteq> V"
    and b: "pred \<noteq> s \<longrightarrow> set (neighbors adj pred) \<subseteq> insert c V"
    and d: "pred \<noteq> s \<longrightarrow> (\<exists>p\<in>set (neighbors adj s). p \<in> V)"
    and fin: "set (neighbors adj c) \<subseteq> insert c V"
  shows "closedUnder adj (insert c V)"
proof -
  have pc: "pred \<in> set (neighbors adj c)" using graphOK_sym [OF ok cp] .
  have cV: "set (neighbors adj c) \<subseteq> V" using fin graphOK_no_self [OF ok, of c] by blast
  have ns: "set (neighbors adj s) \<subseteq> insert c V"
  proof (cases "length (neighbors adj s) = 1")
    case True
    show ?thesis
    proof (cases "pred = s")
      case True
      with cp \<open>length (neighbors adj s) = 1\<close> have "set (neighbors adj s) = {c}"
        by (simp add: short_list_one)
      then show ?thesis by simp
    next
      case False
      with d obtain p where p: "p \<in> set (neighbors adj s)" "p \<in> V" by blast
      with True have "set (neighbors adj s) = {p}" by (simp add: short_list_one)
      with p show ?thesis by simp
    qed
  next
    case False
    with phase have ends: "\<forall>k. length (neighbors adj k) = 1 \<longrightarrow> k \<in> V" by simp
    with c have "length (neighbors adj c) \<noteq> 1" by blast
    from graphOK_other [OF ok this pc] obtain w where
      w: "w \<in> set (neighbors adj c)" "w \<noteq> pred" by blast
    have wV: "w \<in> V" using w(1) cV by blast
    have cw: "c \<in> set (neighbors adj w)" using graphOK_sym [OF ok w(1)] .
    have ws: "w = s"
    proof (rule ccontr)
      assume "w \<noteq> s"
      with a wV w(2) have "set (neighbors adj w) \<subseteq> V" by blast
      with cw c show False by blast
    qed
    with w(2) have "pred \<noteq> s" by simp
    with d obtain p where p: "p \<in> set (neighbors adj s)" "p \<in> V" by blast
    have "p \<noteq> c" using p(2) c by blast
    from graphOK_two [OF ok p(1) _ this] cw ws have "set (neighbors adj s) = {p, c}" by simp
    with p(2) show ?thesis by simp
  qed
  show ?thesis
    unfolding closedUnder_def
  proof
    fix j assume j: "j \<in> insert c V"
    consider "j = c" | "j = s" | "j \<in> V" "j \<noteq> s" "j = pred" | "j \<in> V" "j \<noteq> s" "j \<noteq> pred"
      using j by blast
    then show "set (neighbors adj j) \<subseteq> insert c V"
    proof cases
      case 1 then show ?thesis using fin by simp
    next
      case 2 then show ?thesis using ns by simp
    next
      case 3 then show ?thesis using b by simp
    next
      case 4 then show ?thesis using a by blast
    qed
  qed
qed

lemma traceLoop_walk:
  "graphOK adj en \<Longrightarrow> cur = Some c \<Longrightarrow>
    length (neighbors adj s) = 1 \<or> (\<forall>k. length (neighbors adj k) = 1 \<longrightarrow> k \<in> V) \<Longrightarrow>
    s \<in> V \<Longrightarrow> pred \<in> V \<Longrightarrow> c \<notin> V \<Longrightarrow> c \<in> set (neighbors adj pred) \<Longrightarrow>
    \<forall>k\<in>V. k \<noteq> s \<and> k \<noteq> pred \<longrightarrow> set (neighbors adj k) \<subseteq> V \<Longrightarrow>
    pred \<noteq> s \<longrightarrow> set (neighbors adj pred) \<subseteq> insert c V \<Longrightarrow>
    pred \<noteq> s \<longrightarrow> (\<exists>p\<in>set (neighbors adj s). p \<in> V) \<Longrightarrow>
    \<exists>path' V'. traceLoop adj en V path cur = Inr (path', V') \<and> length path < length path' \<and>
       V \<subseteq> V' \<and> closedUnder adj V'"
proof (induction adj en V path cur arbitrary: c pred rule: traceLoop.induct)
  case (1 adj en V path cur)
  note ok = "1.prems"(1)
  note cur = "1.prems"(2) and phase = "1.prems"(3) and s = "1.prems"(4) and pred = "1.prems"(5)
    and c = "1.prems"(6) and cp = "1.prems"(7) and a = "1.prems"(8) and b = "1.prems"(9)
    and d = "1.prems"(10)
  have pc: "pred \<in> set (neighbors adj c)" using graphOK_sym [OF ok cp] .
  from graphOK_node [OF ok pc] obtain p where p: "en c = Some p" by blast
  let ?V1 = "insert c V"
  let ?next = "find (\<lambda>k. k \<notin> ?V1) (neighbors adj c)"
  have unfold: "traceLoop adj en V path cur = traceLoop adj en ?V1 (path @ [p]) ?next"
    using cur c p by (subst traceLoop.simps) simp
  show ?case
  proof (cases ?next)
    case None
    then have fin: "set (neighbors adj c) \<subseteq> ?V1"
      by (auto simp: find_None_iff)
    have cl: "closedUnder adj ?V1"
      using ok phase s pred c cp a b d fin by (rule walk_end)
    have "traceLoop adj en ?V1 (path @ [p]) None = Inr (path @ [p], ?V1)"
      by (subst traceLoop.simps) simp
    with unfold None cl show ?thesis by auto
  next
    case (Some k)
    then have k: "k \<in> set (neighbors adj c)" "k \<notin> ?V1"
      by (auto simp: find_Some_iff)
    have pk: "pred \<noteq> k" using pred k(2) by blast
    have nc: "set (neighbors adj c) = {pred, k}"
      using graphOK_two [OF ok pc k(1) pk] .
    have "\<exists>path' V'. traceLoop adj en ?V1 (path @ [p]) ?next = Inr (path', V') \<and>
        length (path @ [p]) < length path' \<and> ?V1 \<subseteq> V' \<and> closedUnder adj V'"
    proof (rule "1.IH" [OF cur c p ok Some, of c])
      show "length (neighbors adj s) = 1 \<or> (\<forall>k. length (neighbors adj k) = 1 \<longrightarrow> k \<in> ?V1)"
        using phase by blast
      show "s \<in> ?V1" using s by simp
      show "c \<in> ?V1" by simp
      show "k \<notin> ?V1" using k(2) .
      show "k \<in> set (neighbors adj c)" using k(1) .
      show "\<forall>j\<in>?V1. j \<noteq> s \<and> j \<noteq> c \<longrightarrow> set (neighbors adj j) \<subseteq> ?V1"
        using a b by blast
      show "c \<noteq> s \<longrightarrow> set (neighbors adj c) \<subseteq> insert k ?V1"
        using nc pred by auto
      show "c \<noteq> s \<longrightarrow> (\<exists>p\<in>set (neighbors adj s). p \<in> ?V1)"
        using d cp by (cases "pred = s") auto
    qed
    then obtain path' V' where r: "traceLoop adj en ?V1 (path @ [p]) ?next = Inr (path', V')"
      "length (path @ [p]) < length path'" "?V1 \<subseteq> V'" "closedUnder adj V'" by blast
    with unfold show ?thesis by auto
  qed
qed

lemma trace_from_start:
  assumes ok: "graphOK adj en"
    and cl: "closedUnder adj V0"
    and s: "s \<notin> V0" "neighbors adj s \<noteq> []"
    and phase: "length (neighbors adj s) = 1 \<or> (\<forall>k. length (neighbors adj k) = 1 \<longrightarrow> k \<in> V0)"
  shows "\<exists>path V'. trace adj en V0 s = Inr (path, V') \<and> 2 \<le> length path \<and>
           insert s V0 \<subseteq> V' \<and> closedUnder adj V'"
proof -
  obtain u where u: "u \<in> set (neighbors adj s)" using s(2) by (cases "neighbors adj s") auto
  from graphOK_node [OF ok u] obtain p where p: "en s = Some p" by blast
  let ?V1 = "insert s V0"
  let ?next = "find (\<lambda>k. k \<notin> ?V1) (neighbors adj s)"
  have unfold: "trace adj en V0 s = traceLoop adj en ?V1 ([] @ [p]) ?next"
    unfolding trace_def using s(1) p by (subst traceLoop.simps) simp
  have "u \<noteq> s" using u graphOK_no_self [OF ok, of s] by blast
  moreover have "u \<notin> V0"
  proof
    assume "u \<in> V0"
    with cl have "set (neighbors adj u) \<subseteq> V0" unfolding closedUnder_def by blast
    with graphOK_sym [OF ok u] s(1) show False by blast
  qed
  ultimately have "?next \<noteq> None" unfolding find_None_iff using u by blast
  then obtain c where c: "?next = Some c" by blast
  then have c': "c \<in> set (neighbors adj s)" "c \<notin> ?V1" by (auto simp: find_Some_iff)
  have "\<exists>path' V'. traceLoop adj en ?V1 ([] @ [p]) ?next = Inr (path', V') \<and>
       length ([] @ [p]) < length path' \<and> ?V1 \<subseteq> V' \<and> closedUnder adj V'"
  proof (rule traceLoop_walk [OF ok c, of s _ s])
    show "length (neighbors adj s) = 1 \<or> (\<forall>k. length (neighbors adj k) = 1 \<longrightarrow> k \<in> ?V1)"
      using phase by blast
    show "s \<in> ?V1" by simp
    show "s \<in> ?V1" by simp
    show "c \<notin> ?V1" using c'(2) .
    show "c \<in> set (neighbors adj s)" using c'(1) .
    show "\<forall>k\<in>?V1. k \<noteq> s \<and> k \<noteq> s \<longrightarrow> set (neighbors adj k) \<subseteq> ?V1"
      using cl unfolding closedUnder_def by blast
    show "s \<noteq> s \<longrightarrow> set (neighbors adj s) \<subseteq> insert c ?V1" by simp
    show "s \<noteq> s \<longrightarrow> (\<exists>p\<in>set (neighbors adj s). p \<in> ?V1)" by simp
  qed
  then obtain path' V' where "traceLoop adj en ?V1 ([] @ [p]) ?next = Inr (path', V')"
    "length ([] @ [p]) < length path'" "?V1 \<subseteq> V'" "closedUnder adj V'" by blast
  with unfold show ?thesis by auto
qed

subsection \<open>The two tracing loops\<close>

lemma endpoints_degree:
  "graphOK adj en \<Longrightarrow> k \<in> set (endpoints adj) \<Longrightarrow> length (neighbors adj k) = 1"
  unfolding endpoints_def using graphOK_entry by fastforce

lemma endpoints_complete:
  assumes ok: "graphOK adj en" and l: "length (neighbors adj k) = 1"
  shows "k \<in> set (endpoints adj)"
proof -
  have "neighbors adj k \<noteq> []" using l by auto
  then have "k \<in> fst ` set adj" using ok unfolding graphOK_def by blast
  then obtain n where n: "(k, n) \<in> set adj" by auto
  with graphOK_entry [OF ok n] l show ?thesis
    unfolding endpoints_def by force
qed

lemma midpoints_keys:
  "graphOK adj en \<Longrightarrow> k \<in> set (midpoints adj) \<Longrightarrow> neighbors adj k \<noteq> []"
proof -
  assume ok: "graphOK adj en" and "k \<in> set (midpoints adj)"
  then have "k \<in> fst ` set adj" unfolding midpoints_def by auto
  with ok show ?thesis unfolding graphOK_def by blast
qed

lemma traceOpenPaths_ok:
  assumes ok: "graphOK adj en"
  shows "closedUnder adj V \<Longrightarrow> \<forall>k\<in>set ks. length (neighbors adj k) = 1 \<Longrightarrow>
    \<forall>p\<in>set paths. 2 \<le> length p \<Longrightarrow>
    \<exists>paths' V'. traceOpenPaths adj en ks V paths = Inr (paths', V') \<and>
      (\<forall>p\<in>set paths'. 2 \<le> length p) \<and> closedUnder adj V' \<and> V \<union> set ks \<subseteq> V'"
proof (induction ks arbitrary: V paths)
  case Nil
  then show ?case by simp
next
  case (Cons k ks)
  show ?case
  proof (cases "k \<in> V")
    case True
    from Cons.IH [OF Cons.prems(1) _ Cons.prems(3)] Cons.prems(2)
    obtain paths' V' where "traceOpenPaths adj en ks V paths = Inr (paths', V')"
      "\<forall>p\<in>set paths'. 2 \<le> length p" "closedUnder adj V'" "V \<union> set ks \<subseteq> V'" by auto
    with True show ?thesis by auto
  next
    case False
    have k1: "length (neighbors adj k) = 1" using Cons.prems(2) by simp
    then have "neighbors adj k \<noteq> []" by auto
    from trace_from_start [OF ok Cons.prems(1) False this] k1
    obtain path V1 where t: "trace adj en V k = Inr (path, V1)" "2 \<le> length path"
      "insert k V \<subseteq> V1" "closedUnder adj V1" by blast
    have "\<forall>p\<in>set (paths @ [path]). 2 \<le> length p" using Cons.prems(3) t(2) by simp
    from Cons.IH [OF t(4) _ this] Cons.prems(2)
    obtain paths' V' where "traceOpenPaths adj en ks V1 (paths @ [path]) = Inr (paths', V')"
      "\<forall>p\<in>set paths'. 2 \<le> length p" "closedUnder adj V'" "V1 \<union> set ks \<subseteq> V'" by auto
    with False t show ?thesis by auto
  qed
qed

lemma traceLoops_ok:
  assumes ok: "graphOK adj en"
  shows "closedUnder adj V \<Longrightarrow> \<forall>k. length (neighbors adj k) = 1 \<longrightarrow> k \<in> V \<Longrightarrow>
    \<forall>k\<in>set ks. neighbors adj k \<noteq> [] \<Longrightarrow> \<forall>p\<in>set paths. 2 \<le> length p \<Longrightarrow>
    \<exists>paths' V'. traceLoops adj en ks V paths = Inr (paths', V') \<and>
      (\<forall>p\<in>set paths'. 2 \<le> length p)"
proof (induction ks arbitrary: V paths)
  case Nil
  then show ?case by simp
next
  case (Cons k ks)
  show ?case
  proof (cases "k \<in> V")
    case True
    from Cons.IH [OF Cons.prems(1,2) _ Cons.prems(4)] Cons.prems(3)
    obtain paths' V' where "traceLoops adj en ks V paths = Inr (paths', V')"
      "\<forall>p\<in>set paths'. 2 \<le> length p" by auto
    with True show ?thesis by auto
  next
    case False
    have "neighbors adj k \<noteq> []" using Cons.prems(3) by simp
    from trace_from_start [OF ok Cons.prems(1) False this] Cons.prems(2)
    obtain path V1 where t: "trace adj en V k = Inr (path, V1)" "2 \<le> length path"
      "insert k V \<subseteq> V1" "closedUnder adj V1" by blast
    let ?path = "if length path > 2 then path @ [path ! 0] else path"
    have "\<forall>p\<in>set (paths @ [?path]). 2 \<le> length p" using Cons.prems(4) t(2) by simp
    moreover have "\<forall>k. length (neighbors adj k) = 1 \<longrightarrow> k \<in> V1"
      using Cons.prems(2) t(3) by blast
    ultimately obtain paths' V' where
      "traceLoops adj en ks V1 (paths @ [?path]) = Inr (paths', V')"
      "\<forall>p\<in>set paths'. 2 \<le> length p"
      using Cons.IH [OF t(4), of "paths @ [?path]"] Cons.prems(3) by auto
    with False t show ?thesis by auto
  qed
qed

subsection \<open>Smoothing\<close>

lemma length_cutCorners: "length (cutCorners ps) = 2 * (length ps - 1)"
  by (induction ps rule: cutCorners.induct) auto

lemma chaikinRound_ok:
  assumes "2 \<le> length current"
  shows "\<exists>next. chaikinRound current = Inr next \<and> length current < length next"
  using assms by (auto simp: chaikinRound_def Let_def length_cutCorners)

lemma chaikinRounds_ok:
  "2 \<le> length current \<Longrightarrow>
   \<exists>res. chaikinRounds k current = Inr res \<and> length current \<le> length res"
proof (induction k arbitrary: current)
  case 0
  then show ?case by simp
next
  case (Suc k)
  from chaikinRound_ok [OF Suc.prems] obtain nxt where
    n: "chaikinRound current = Inr nxt" "length current < length nxt" by blast
  then have "2 \<le> length nxt" using Suc.prems by simp
  from Suc.IH [OF this] obtain res where "chaikinRounds k nxt = Inr res" "length nxt \<le> length res"
    by blast
  with n show ?case by auto
qed

lemma smoothChaikin_ok:
  assumes "2 \<le> length points"
  shows "\<exists>res. smoothChaikin points iterations = Inr res \<and> 2 \<le> length res"
proof (cases "iterations = 0 \<or> length points < 3")
  case True
  with assms show ?thesis by (simp add: smoothChaikin_def)
next
  case False
  from chaikinRounds_ok [OF assms, of iterations] obtain res where
    "chaikinRounds iterations points = Inr res" "length points \<le> length res" by blast
  with False assms show ?thesis by (auto simp: smoothChaikin_def)
qed

lemma smoothAll_ok:
  "\<forall>p\<in>set paths. 2 \<le> length p \<Longrightarrow>
   \<exists>res. smoothAll paths = Inr res \<and> (\<forall>p\<in>set res. 2 \<le> length p)"
proof (induction paths)
  case Nil
  then show ?case by simp
next
  case (Cons p ps)
  then have "2 \<le> length p" by simp
  from smoothChaikin_ok [OF this, of 2] obtain q where q: "smoothChaikin p 2 = Inr q" "2 \<le> length q"
    by blast
  from Cons obtain qs where "smoothAll ps = Inr qs" "\<forall>p\<in>set qs. 2 \<le> length p" by auto
  with q show ?case by auto
qed

subsection \<open>The polylines\<close>

lemma graphOK_buildGraph: "graphOK (snd (buildGraph g threshold)) (fst (buildGraph g threshold))"
  unfolding graphOK_def
proof (intro conjI allI impI)
  show "distinct (map fst (snd (buildGraph g threshold)))" by (rule distinct_keys_buildGraph)
  show "k' \<in> set (neighbors (snd (buildGraph g threshold)) k) \<Longrightarrow>
        k \<in> set (neighbors (snd (buildGraph g threshold)) k')" for k k'
    by (rule neighbors_buildGraph_sym)
  show "length (neighbors (snd (buildGraph g threshold)) k) \<le> 2" for k
    by (rule length_neighbors_buildGraph)
  show "distinct (neighbors (snd (buildGraph g threshold)) k)" for k
    by (rule distinct_neighbors_buildGraph)
  show "k \<notin> set (neighbors (snd (buildGraph g threshold)) k)" for k
    by (rule no_self_neighbor_buildGraph)
  show "neighbors (snd (buildGraph g threshold)) k \<noteq> [] \<Longrightarrow> fst (buildGraph g threshold) k \<noteq> None" for k
    by (rule nodes_buildGraph) (simp add: keys_buildGraph_iff)
  show "(k \<in> fst ` set (snd (buildGraph g threshold))) = (neighbors (snd (buildGraph g threshold)) k \<noteq> [])" for k
    by (rule keys_buildGraph_iff)
qed

lemma hotCentre_lengths: "map_sum id (map length) (marchSquares hotCentreGrid 5) = Inr [17]"
  by code_simp

text \<open>
  Claim C10.  For every grid and every threshold \<^const>\<open>marchSquares\<close> returns (no
  push of a missing node, no smoothing of too short a list), and every polyline it
  returns, after traversal and smoothing, has at least two points.
\<close>

theorem polylines_have_two_points:
  "\<exists>polylines. marchSquares g threshold = Inr polylines \<and> (\<forall>p\<in>set polylines. 2 \<le> length p)"
proof -
  obtain en adj where b: "buildGraph g threshold = (en, adj)" by (cases "buildGraph g threshold")
  have ok: "graphOK adj en" using graphOK_buildGraph [of g threshold] b by simp
  have "closedUnder adj {}" by (simp add: closedUnder_def)
  from traceOpenPaths_ok [OF ok this, of "endpoints adj" "[]"] endpoints_degree [OF ok]
  obtain paths V where o: "traceOpenPaths adj en (endpoints adj) {} [] = Inr (paths, V)"
    "\<forall>p\<in>set paths. 2 \<le> length p" "closedUnder adj V" "set (endpoints adj) \<subseteq> V" by auto
  have ends: "\<forall>k. length (neighbors adj k) = 1 \<longrightarrow> k \<in> V"
    using endpoints_complete [OF ok] o(4) by blast
  from traceLoops_ok [OF ok o(3) ends _ o(2), of "midpoints adj"] midpoints_keys [OF ok]
  obtain paths' V' where l: "traceLoops adj en (midpoints adj) V paths = Inr (paths', V')"
    "\<forall>p\<in>set paths'. 2 \<le> length p" by auto
  from smoothAll_ok [OF l(2)] obtain res where
    "smoothAll paths' = Inr res" "\<forall>p\<in>set res. 2 \<le> length p" by blast
  with b o(1) l(1) show ?thesis by (simp add: marchSquares_def)
qed

theorem polylines_have_two_points_witness:
  "\<exists>polylines. marchSquares hotCentreGrid 5 = Inr polylines \<and> length polylines = 1 \<and>
     2 \<le> length (polylines ! 0)"
proof -
  obtain polylines where p: "marchSquares hotCentreGrid 5 = Inr polylines"
    "\<forall>p\<in>set polylines. 2 \<le> length p"
    using polylines_have_two_points [of hotCentreGrid 5] by blast
  from p(1) hotCentre_lengths have l: "map length polylines = [17]" by simp
  then have "length polylines = 1" by (metis length_map length_Cons list.size(3) One_nat_def)
  moreover from this have "polylines ! 0 \<in> set polylines" by simp
  ultimately show ?thesis using p by blast
qed

end
